theory Spec2Isabelle
  imports Complex_Main "HOL-Library.Multiset" "HOL-Library.AList"
    "HOL-Library.Char_ord" "HOL-Library.List_Lexorder"
begin

section \<open>Lucentia: insight ranking and cash-flow projection\<close>

text \<open>
  A shallow embedding of the pure functions of the Lucentia frontend:
  \<^item> \<^verbatim>\<open>Insights.jsx\<close>: \<^verbatim>\<open>mergeSimilarInsights\<close>, \<^verbatim>\<open>buildAllDomainSections\<close>;
  \<^item> \<^verbatim>\<open>Dashboard.jsx\<close>: \<^verbatim>\<open>scoreInsight\<close>, \<^verbatim>\<open>compareInsights\<close>, \<^verbatim>\<open>getDiverseInsights\<close>,
    \<^verbatim>\<open>buildFinancialProjection\<close>.

  JavaScript numbers are modelled by \<open>int\<close> where the code only handles integers
  (ranks, scores, millisecond timestamps) and by \<open>real\<close> for money amounts; the ids of
  insights are natural numbers.
  Strings are \<open>char list\<close>; the case mapping of \<^verbatim>\<open>toLowerCase\<close> is modelled on ASCII letters.
  The lookup tables of the code are object literals, so a key that names a member of
  \<^verbatim>\<open>Object.prototype\<close> (such as \<^verbatim>\<open>constructor\<close>) finds that member. The model keeps these
  cases: a looked-up value is a number or a member (\<open>lookup_or\<close>), a difference with a
  member is \<^verbatim>\<open>NaN\<close> (\<open>js_minus\<close>), which a sort reads as \<open>+0\<close> (\<open>SortCompare\<close>), and the
  reduction of \<^verbatim>\<open>getDiverseInsights\<close> throws a \<^verbatim>\<open>TypeError\<close> on such a family key
  (\<open>group_step\<close>).
\<close>

subsection \<open>\<^verbatim>\<open>Array.prototype.sort\<close> with a comparison function\<close>

text \<open>
  ECMAScript specifies a stable sort. For a consistent comparison function every stable
  sort returns the same array, so the sort is modelled by stable insertion: an element
  goes in front of the first element it does not compare greater than, and elements are
  inserted from the right.
\<close>

fun insert_sorted :: "('a \<Rightarrow> 'a \<Rightarrow> int) \<Rightarrow> 'a \<Rightarrow> 'a list \<Rightarrow> 'a list" where
  "insert_sorted cmp x [] = [x]"
| "insert_sorted cmp x (y # ys) =
     (if cmp x y \<le> 0 then x # y # ys else y # insert_sorted cmp x ys)"

definition array_sort :: "('a \<Rightarrow> 'a \<Rightarrow> int) \<Rightarrow> 'a list \<Rightarrow> 'a list" where
  "array_sort cmp xs = foldr (insert_sorted cmp) xs []"

text \<open>
  A comparison function of the code may return \<^verbatim>\<open>NaN\<close>, here \<open>None\<close>; the sort reads
  \<^verbatim>\<open>NaN\<close> as \<open>+0\<close> (the abstract operation SortCompare). Where that makes the comparison
  function inconsistent the standard leaves the order to the implementation, and
  \<open>array_sort\<close> gives one of the orders allowed.
\<close>

definition SortCompare :: "('a \<Rightarrow> 'a \<Rightarrow> int option) \<Rightarrow> 'a \<Rightarrow> 'a \<Rightarrow> int" where
  "SortCompare comparefn x y = (case comparefn x y of None \<Rightarrow> 0 | Some v \<Rightarrow> v)"

subsection \<open>Lookups in object literals\<close>

text \<open>
  The code keeps its rank and score tables in object literals and reads them with
  \<^verbatim>\<open>table[key] ?? fallback\<close>. An object literal inherits from \<^verbatim>\<open>Object.prototype\<close>: for a key
  that is no own property but names one of its members the lookup returns that member (a
  function, or for \<^verbatim>\<open>__proto__\<close> the prototype object), which is not nullish, so the
  fallback is not taken. A looked-up value is a number or such a member.
\<close>

definition object_prototype_names :: "string list" where
  "object_prototype_names =
     [''constructor'', ''__defineGetter__'', ''__defineSetter__'', ''hasOwnProperty'',
      ''__lookupGetter__'', ''__lookupSetter__'', ''isPrototypeOf'', ''propertyIsEnumerable'',
      ''toString'', ''valueOf'', ''__proto__'', ''toLocaleString'']"

datatype js_value = Num int | Member string

definition lookup_or :: "(string \<times> int) list \<Rightarrow> string \<Rightarrow> int \<Rightarrow> js_value" where
  "lookup_or table key fallback =
     (case map_of table key of
        Some v \<Rightarrow> Num v
      | None \<Rightarrow> if key \<in> set object_prototype_names then Member key else Num fallback)"

text \<open>
  \<^verbatim>\<open>a - b\<close> is \<^verbatim>\<open>NaN\<close> unless both are numbers. \<^verbatim>\<open>a < b\<close> is false when one side is a number
  and the other a member (the member converts to \<^verbatim>\<open>NaN\<close>); two members are compared as the
  strings they convert to, \<^verbatim>\<open>function toString() { [native code] }\<close> and the like, which
  differ within the names.
\<close>

definition js_minus :: "js_value \<Rightarrow> js_value \<Rightarrow> int option" where
  "js_minus a b = (case (a, b) of (Num x, Num y) \<Rightarrow> Some (x - y) | _ \<Rightarrow> None)"

definition member_text :: "string \<Rightarrow> string" where
  "member_text name =
     (if name = ''__proto__'' then ''[object Object]''
      else ''function '' @ (if name = ''constructor'' then ''Object'' else name)
        @ ''() { [native code] }'')"

definition js_less :: "js_value \<Rightarrow> js_value \<Rightarrow> bool" where
  "js_less a b =
     (case (a, b) of
        (Num x, Num y) \<Rightarrow> x < y
      | (Member m, Member n) \<Rightarrow> member_text m < member_text n
      | _ \<Rightarrow> False)"

subsection \<open>Insights\<close>

text \<open>
  A timestamp field as the scorer sees it: absent (or empty, hence falsy), a string that
  \<^verbatim>\<open>Date.parse\<close> rejects, or a string parsed to milliseconds.
\<close>

datatype timestamp = Missing | Unparseable | Parsed int

text \<open>
  The fields of an insight that the ranking code reads. String fields that may be absent
  are options; the empty string is falsy as well (see \<open>truthy\<close>).
\<close>

record insight =
  insight_id :: nat
  title :: string
  priority :: "string option"
  created_at :: timestamp
  updated_at :: timestamp
  family :: "string option"
  familyKey :: "string option"
  domainKey :: "string option"

record family_node =
  family_key :: string
  family_insights :: "insight list"

record domain_node =
  domain_key :: string
  families :: "family_node list"

definition truthy :: "string option \<Rightarrow> bool" where
  "truthy v = (case v of None \<Rightarrow> False | Some s \<Rightarrow> s \<noteq> [])"

text \<open>\<^verbatim>\<open>a || b\<close> on optional strings.\<close>

definition js_or :: "string option \<Rightarrow> string option \<Rightarrow> string option" where
  "js_or a b = (if truthy a then a else b)"

subsection \<open>\<^verbatim>\<open>Insights.jsx\<close>: the merger\<close>

text \<open>
  \<^verbatim>\<open>{ high: 0, medium: 1, low: 2 }[priority] ?? 3\<close>: a case-sensitive lookup in an object
  literal; a missing priority reads the key \<^verbatim>\<open>undefined\<close>.
\<close>

definition rank :: "string option \<Rightarrow> js_value" where
  "rank p = (case p of None \<Rightarrow> Num 3
     | Some s \<Rightarrow> lookup_or [(''high'', 0), (''medium'', 1), (''low'', 2)] s 3)"

text \<open>The template string \<^verbatim>\<open>`${family.key}|${insight.title}`\<close>.\<close>

definition merge_key :: "string \<Rightarrow> string \<Rightarrow> string" where
  "merge_key fk t = fk @ ''|'' @ t"

text \<open>The object literal stored in the map: the insight with its origin written over it.\<close>

definition annotate :: "domain_node \<Rightarrow> family_node \<Rightarrow> insight \<Rightarrow> insight" where
  "annotate d f i = i\<lparr>domainKey := Some (domain_key d), familyKey := Some (family_key f)\<rparr>"

text \<open>
  The \<^verbatim>\<open>Map\<close> is an association list in insertion order; \<^verbatim>\<open>map.set\<close> on a key that is
  present replaces the value where it stands (\<open>AList.update\<close>).
\<close>

definition merge_insight ::
  "domain_node \<Rightarrow> family_node \<Rightarrow> insight \<Rightarrow> (string \<times> insight) list \<Rightarrow> (string \<times> insight) list" where
  "merge_insight d f i m =
     (let k = merge_key (family_key f) (title i) in
      case map_of m k of
        None \<Rightarrow> AList.update k (annotate d f i) m
      | Some old \<Rightarrow>
          if js_less (rank (priority i)) (rank (priority old))
          then AList.update k (annotate d f i) m
          else m)"

definition merge_family ::
  "domain_node \<Rightarrow> family_node \<Rightarrow> (string \<times> insight) list \<Rightarrow> (string \<times> insight) list" where
  "merge_family d f m = fold (merge_insight d f) (family_insights f) m"

definition merge_domain :: "domain_node \<Rightarrow> (string \<times> insight) list \<Rightarrow> (string \<times> insight) list" where
  "merge_domain d m = fold (merge_family d) (families d) m"

definition mergeSimilarInsights :: "domain_node list \<Rightarrow> insight list" where
  "mergeSimilarInsights domains = map snd (fold merge_domain domains [])"

subsection \<open>\<^verbatim>\<open>Insights.jsx\<close>: the section allocator\<close>

record domain_group =
  group_key :: string
  group_insights :: "insight list"

record sections =
  keyHighlights :: "insight list"
  majorSpending :: "insight list"
  crossDomain :: "insight list"
  byDomain :: "domain_group list"

definition MAX_TOTAL :: nat where
  "MAX_TOTAL = 15"

text \<open>
  \<^verbatim>\<open>priorityRank\<close> is the same lookup as \<open>rank\<close>, and the comparison function of the two
  sorts is \<^verbatim>\<open>(a, b) => priorityRank(a) - priorityRank(b)\<close>.
\<close>

definition priorityRank :: "insight \<Rightarrow> js_value" where
  "priorityRank item = rank (priority item)"

definition byPriorityRank :: "insight \<Rightarrow> insight \<Rightarrow> int option" where
  "byPriorityRank a b = js_minus (priorityRank a) (priorityRank b)"

text \<open>
  \<^verbatim>\<open>pickTop\<close> filters, sorts by priority rank, keeps \<open>limit\<close> insights and adds their ids to
  the set \<open>selected\<close>, which it returns with the group. It does not read \<open>selected\<close>.
\<close>

definition pickTop ::
  "insight list \<Rightarrow> (insight \<Rightarrow> bool) \<Rightarrow> nat \<Rightarrow> nat set \<Rightarrow> insight list \<times> nat set" where
  "pickTop insights filterFn limit selected =
     (let sorted = take limit (array_sort (SortCompare byPriorityRank) (filter filterFn insights))
      in (sorted, fold (\<lambda>i s. insert (insight_id i) s) sorted selected))"

definition isMajorSpending :: "insight \<Rightarrow> bool" where
  "isMajorSpending i = (familyKey i = Some ''category_trend'')"

definition crossDomainFamilies :: "string list" where
  "crossDomainFamilies =
     [''cross_user_affinity'', ''delivery_vs_grocery'', ''subscription_volume'',
      ''subscription_price_change'']"

definition isCrossDomain :: "insight \<Rightarrow> bool" where
  "isCrossDomain i = (case familyKey i of None \<Rightarrow> False | Some k \<Rightarrow> k \<in> set crossDomainFamilies)"

definition domainOrder :: "string list" where
  "domainOrder =
     [''spending_patterns'', ''spending_trends'', ''optimization_rewards'',
      ''behavior_lifestyle'', ''sustainability_local'']"

text \<open>One turn of \<^verbatim>\<open>domainOrder.forEach\<close>: the state is \<open>selected\<close> and \<open>domainGroups\<close>.\<close>

definition domain_step ::
  "insight list \<Rightarrow> string \<Rightarrow> nat set \<times> domain_group list \<Rightarrow> nat set \<times> domain_group list" where
  "domain_step insights dk st =
     (let selected = fst st; domainGroups = snd st;
          domainInsights = take 2 (array_sort (SortCompare byPriorityRank)
            (filter (\<lambda>i. domainKey i = Some dk \<and> insight_id i \<notin> selected) insights));
          selected' = fold (\<lambda>i s. insert (insight_id i) s) domainInsights selected
      in if domainInsights \<noteq> []
         then (selected', domainGroups @ [\<lparr>group_key = dk, group_insights = domainInsights\<rparr>])
         else (selected', domainGroups))"

text \<open>
  The inner \<^verbatim>\<open>while (group.insights.length && excess > 0)\<close>: pop one insight per unit of
  excess.
\<close>

fun trim_group :: "insight list \<Rightarrow> nat \<Rightarrow> insight list \<times> nat" where
  "trim_group ins 0 = (ins, 0)"
| "trim_group ins (Suc e) = (if ins = [] then (ins, Suc e) else trim_group (butlast ins) e)"

text \<open>\<^verbatim>\<open>domainGroups.splice(i, 1)\<close>.\<close>

definition splice1 :: "nat \<Rightarrow> 'a list \<Rightarrow> 'a list" where
  "splice1 i xs = take i xs @ drop (Suc i) xs"

text \<open>
  The outer \<^verbatim>\<open>for (let i = domainGroups.length - 1; i >= 0 && excess > 0; i--)\<close>; the first
  argument is \<open>i + 1\<close>.
\<close>

fun trim_groups :: "nat \<Rightarrow> domain_group list \<Rightarrow> nat \<Rightarrow> domain_group list" where
  "trim_groups 0 domainGroups excess = domainGroups"
| "trim_groups (Suc i) domainGroups excess =
     (if excess > 0 then
        (let grp = domainGroups ! i;
             r = trim_group (group_insights grp) excess;
             domainGroups' =
               (if fst r = [] then splice1 i domainGroups
                else domainGroups[i := grp\<lparr>group_insights := fst r\<rparr>])
         in trim_groups i domainGroups' (snd r))
      else domainGroups)"

definition group_total :: "domain_group list \<Rightarrow> nat" where
  "group_total gs = fold (\<lambda>g sum. sum + length (group_insights g)) gs 0"

text \<open>
  Lines 557 to 588 of the function: the three \<^verbatim>\<open>pickTop\<close> groups and the domain loop, before
  the total is compared with \<^verbatim>\<open>MAX_TOTAL\<close>.
\<close>

definition initialSections :: "insight list \<Rightarrow> sections" where
  "initialSections insights =
     (let kh = pickTop insights (\<lambda>i. True) 5 {};
          ms = pickTop insights isMajorSpending 3 (snd kh);
          cd = pickTop insights isCrossDomain 3 (snd ms);
          domainGroups = snd (fold (domain_step insights) domainOrder (snd cd, []))
      in \<lparr>keyHighlights = fst kh, majorSpending = fst ms, crossDomain = fst cd,
          byDomain = domainGroups\<rparr>)"

definition section_total :: "sections \<Rightarrow> nat" where
  "section_total s =
     length (keyHighlights s) + length (majorSpending s) + length (crossDomain s)
       + group_total (byDomain s)"

text \<open>Lines 590 to 607: the truncation of the domain groups, and the returned object.\<close>

definition buildAllDomainSections :: "insight list \<Rightarrow> sections" where
  "buildAllDomainSections insights =
     (let s = initialSections insights;
          domainGroups = byDomain s;
          totalUsed = section_total s
      in if totalUsed > MAX_TOTAL
         then s\<lparr>byDomain := trim_groups (length domainGroups) domainGroups (totalUsed - MAX_TOTAL)\<rparr>
         else s)"

text \<open>The ids of a list of insights.\<close>

definition ids_of :: "insight list \<Rightarrow> nat set" where
  "ids_of xs = insight_id ` set xs"

text \<open>
  The invariant of the domain loop, read off a list of groups against the set of ids
  selected before them: no group is empty, none has more than two insights, and none
  holds an id selected before it or by an earlier group of the list.
\<close>

fun fresh_groups :: "nat set \<Rightarrow> domain_group list \<Rightarrow> bool" where
  "fresh_groups sel [] = True"
| "fresh_groups sel (g # gs) =
     (group_insights g \<noteq> [] \<and> length (group_insights g) \<le> 2
      \<and> ids_of (group_insights g) \<inter> sel = {}
      \<and> fresh_groups (sel \<union> ids_of (group_insights g)) gs)"

subsection \<open>Example inputs of the section allocator\<close>

definition mk_insight :: "nat \<Rightarrow> string \<Rightarrow> string \<Rightarrow> string \<Rightarrow> string \<Rightarrow> insight" where
  "mk_insight n t p fk dk =
     \<lparr>insight_id = n, title = t, priority = Some p, created_at = Missing, updated_at = Missing,
      family = None, familyKey = Some fk, domainKey = Some dk\<rparr>"

text \<open>Two merged insights: one of the major-spending family, one of a cross-domain family.\<close>

definition overlap_example :: "insight list" where
  "overlap_example =
     [mk_insight 1 ''Dining is trending up'' ''high'' ''category_trend'' ''spending_trends'',
      mk_insight 2 ''Shoppers like you'' ''medium'' ''cross_user_affinity'' ''behavior_lifestyle'']"

text \<open>
  Twenty-one insights that fill every group: five of high priority, three of the
  major-spending family, three of a cross-domain family, and two more for each of the five
  domains.
\<close>

definition full_example :: "insight list" where
  "full_example =
     map (\<lambda>n. mk_insight n ''Goal'' ''high'' ''savings_goal'' ''goals'') [1, 2, 3, 4, 5]
     @ map (\<lambda>n. mk_insight n ''Trend'' ''medium'' ''category_trend'' ''spending_trends'') [6, 7, 8]
     @ map (\<lambda>n. mk_insight n ''Affinity'' ''medium'' ''cross_user_affinity'' ''behavior_lifestyle'') [9, 10, 11]
     @ concat (map (\<lambda>(n, dk). [mk_insight n ''First'' ''low'' ''habit_frequency'' dk,
                                mk_insight (n + 1) ''Second'' ''low'' ''habit_frequency'' dk])
         [(12, ''spending_patterns''), (14, ''spending_trends''), (16, ''optimization_rewards''),
          (18, ''behavior_lifestyle''), (20, ''sustainability_local'')])"

subsection \<open>The merger's traversal, for its specification\<close>

text \<open>
  The insights in the order the three nested \<^verbatim>\<open>forEach\<close> loops visit them (domain, then
  family, then insight), each with its origin written over it.
\<close>

definition traversal :: "domain_node list \<Rightarrow> insight list" where
  "traversal domains =
     concat (map (\<lambda>d. concat (map (\<lambda>f. map (annotate d f) (family_insights f)) (families d)))
       domains)"

text \<open>The deduplication key of the specification: the pair of family key and title.\<close>

definition dedup_key :: "insight \<Rightarrow> string option \<times> string" where
  "dedup_key i = (familyKey i, title i)"

text \<open>The map key that the merger builds for an insight once its origin is written over it.\<close>

definition map_key :: "insight \<Rightarrow> string" where
  "map_key i = merge_key (case familyKey i of None \<Rightarrow> [] | Some k \<Rightarrow> k) (title i)"

text \<open>
  The priority rank in the words of the specification: 0 for \<^verbatim>\<open>high\<close>, 1 for \<^verbatim>\<open>medium\<close>, 2
  for \<^verbatim>\<open>low\<close>, 3 for a missing or any other priority. A priority is plain when it names no
  member of \<^verbatim>\<open>Object.prototype\<close>; on plain priorities the lookup of the code returns the
  rank of the specification.
\<close>

definition spec_rank :: "string option \<Rightarrow> int" where
  "spec_rank p =
     (if p = Some ''high'' then 0 else if p = Some ''medium'' then 1
      else if p = Some ''low'' then 2 else 3)"

definition plain_priority :: "string option \<Rightarrow> bool" where
  "plain_priority p = (case p of None \<Rightarrow> True | Some s \<Rightarrow> s \<notin> set object_prototype_names)"

text \<open>One turn of the innermost loop, on an insight that carries its origin.\<close>

definition upsert :: "insight \<Rightarrow> (string \<times> insight) list \<Rightarrow> (string \<times> insight) list" where
  "upsert a m =
     (case map_of m (map_key a) of
        None \<Rightarrow> AList.update (map_key a) a m
      | Some old \<Rightarrow>
          if js_less (rank (priority a)) (rank (priority old))
          then AList.update (map_key a) a m else m)"

text \<open>
  The invariant of the merger's loop on plain priorities. \<open>kept_entry T k v\<close>: the value
  \<open>v\<close> stored under the key \<open>k\<close> is an insight of the visited list \<open>T\<close> with that key,
  no visited insight with the key has a smaller rank, and every one visited before it
  has a greater rank.
\<close>

definition kept_entry :: "insight list \<Rightarrow> string \<Rightarrow> insight \<Rightarrow> bool" where
  "kept_entry T k v \<longleftrightarrow>
     map_key v = k
     \<and> (\<exists>n < length T. T ! n = v
          \<and> (\<forall>j < length T. map_key (T ! j) = k \<longrightarrow>
                spec_rank (priority v) \<le> spec_rank (priority (T ! j)))
          \<and> (\<forall>j < n. map_key (T ! j) = k \<longrightarrow>
                spec_rank (priority v) < spec_rank (priority (T ! j))))"

definition merged_ok :: "insight list \<Rightarrow> (string \<times> insight) list \<Rightarrow> bool" where
  "merged_ok T m \<longleftrightarrow>
     distinct (map fst m)
     \<and> (\<forall>k v. map_of m k = Some v \<longrightarrow> kept_entry T k v)
     \<and> (\<forall>x \<in> set T. map_of m (map_key x) \<noteq> None)"

subsection \<open>\<^verbatim>\<open>Dashboard.jsx\<close>: the scorer and the comparator\<close>

definition PRIORITY_RANK :: "(string \<times> int) list" where
  "PRIORITY_RANK = [(''high'', 0), (''medium'', 1), (''low'', 2)]"

definition QUICK_SCALE :: "(string \<times> int) list" where
  "QUICK_SCALE =
     [(''restaurant_comeback'', 5), (''favorite_restaurant_push'', 5),
      (''payment_method_optimization'', 5), (''category_subscription_opportunity'', 5),
      (''cross_user_affinity'', 4), (''merchant_loyalty'', 4), (''merchant_bundling'', 4),
      (''duplicate_services'', 4), (''duplicate_subscription'', 4), (''category_spike'', 4),
      (''category_trend'', 3), (''fee_detection'', 3), (''balance_warning'', 5),
      (''cash_buffer'', 5), (''air_travel_footprint'', 3), (''default'', 2)]"

text \<open>\<^verbatim>\<open>String.prototype.toLowerCase\<close> on ASCII letters.\<close>

definition lower_char :: "char \<Rightarrow> char" where
  "lower_char c =
     (case map_of (zip ''ABCDEFGHIJKLMNOPQRSTUVWXYZ'' ''abcdefghijklmnopqrstuvwxyz'') c of
        None \<Rightarrow> c | Some l \<Rightarrow> l)"

definition toLowerCase :: "string \<Rightarrow> string" where
  "toLowerCase s = map lower_char s"

text \<open>
  \<^verbatim>\<open>if (!value) return 3\<close>, then \<^verbatim>\<open>PRIORITY_RANK[normalized] ?? 3\<close> on the priority in lower
  case.
\<close>

definition getPriorityRank :: "string option \<Rightarrow> js_value" where
  "getPriorityRank v =
     (case v of
        None \<Rightarrow> Num 3
      | Some s \<Rightarrow> if s = [] then Num 3 else lookup_or PRIORITY_RANK (toLowerCase s) 3)"

definition parseTimestamp :: "timestamp \<Rightarrow> int" where
  "parseTimestamp v = (case v of Missing \<Rightarrow> 0 | Unparseable \<Rightarrow> 0 | Parsed t \<Rightarrow> t)"

text \<open>\<^verbatim>\<open>a || b\<close> on timestamp fields: a string that does not parse is still truthy.\<close>

definition ts_or :: "timestamp \<Rightarrow> timestamp \<Rightarrow> timestamp" where
  "ts_or a b = (case a of Missing \<Rightarrow> b | _ \<Rightarrow> a)"

record score =
  priorityScore :: js_value
  quickScore :: js_value
  recencyScore :: int

text \<open>
  \<^verbatim>\<open>QUICK_SCALE[family] ?? QUICK_SCALE.default\<close>, with \<^verbatim>\<open>family\<close> read as
  \<^verbatim>\<open>insight?.familyKey || insight?.family\<close>; a missing family reads the key \<^verbatim>\<open>undefined\<close>.
\<close>

definition scoreInsight :: "insight \<Rightarrow> score" where
  "scoreInsight i =
     \<lparr>priorityScore = getPriorityRank (priority i),
      quickScore =
        (let dflt = (case map_of QUICK_SCALE ''default'' of None \<Rightarrow> 0 | Some v \<Rightarrow> v) in
         case js_or (familyKey i) (family i) of
           None \<Rightarrow> Num dflt
         | Some k \<Rightarrow> lookup_or QUICK_SCALE k dflt),
      recencyScore = - parseTimestamp (ts_or (created_at i) (updated_at i))\<rparr>"

text \<open>
  The Comparator. \<^verbatim>\<open>!==\<close> on two looked-up values is inequality of numbers or of members;
  the differences are \<^verbatim>\<open>NaN\<close> (\<open>None\<close>) when a member is involved.
\<close>

definition compareInsights :: "insight \<Rightarrow> insight \<Rightarrow> int option" where
  "compareInsights a b =
     (let aScore = scoreInsight a; bScore = scoreInsight b in
      if quickScore aScore \<noteq> quickScore bScore
        then js_minus (quickScore bScore) (quickScore aScore)
      else if priorityScore aScore \<noteq> priorityScore bScore
        then js_minus (priorityScore aScore) (priorityScore bScore)
      else Some (recencyScore aScore - recencyScore bScore))"

subsection \<open>\<^verbatim>\<open>Dashboard.jsx\<close>: the diversity selector\<close>

record bucket =
  bucket_familyKey :: string
  bucket_insights :: "insight list"

text \<open>\<^verbatim>\<open>insight.family || insight.familyKey || 'uncategorized'\<close>.\<close>

definition or_else :: "string option \<Rightarrow> string \<Rightarrow> string" where
  "or_else v d = (case v of None \<Rightarrow> d | Some s \<Rightarrow> if s = [] then d else s)"

definition bucket_key :: "insight \<Rightarrow> string" where
  "bucket_key i = or_else (family i) (or_else (familyKey i) ''uncategorized'')"

text \<open>
  The accumulator of \<^verbatim>\<open>insights.reduce\<close> is an object; the model keeps its own properties,
  the buckets, in the order of their creation. \<open>add_to_bucket\<close> is the callback where it
  does not throw: it creates the bucket of a new key and pushes the insight.
\<close>

definition add_to_bucket :: "insight \<Rightarrow> bucket list \<Rightarrow> bucket list" where
  "add_to_bucket i acc =
     (let k = bucket_key i in
      if k \<in> set (map bucket_familyKey acc)
      then map (\<lambda>b. if bucket_familyKey b = k
                    then b\<lparr>bucket_insights := bucket_insights b @ [i]\<rparr> else b) acc
      else acc @ [\<lparr>bucket_familyKey = k, bucket_insights = [i]\<rparr>])"

datatype error = TypeError

text \<open>
  The callback. For a key that has no bucket yet and names a member of
  \<^verbatim>\<open>Object.prototype\<close>, \<^verbatim>\<open>acc[familyKey]\<close> is that member and truthy, no bucket is created, and
  \<^verbatim>\<open>acc[familyKey].insights.push\<close> throws a \<^verbatim>\<open>TypeError\<close>, which ends \<^verbatim>\<open>getDiverseInsights\<close>.
\<close>

definition group_step :: "insight \<Rightarrow> bucket list \<Rightarrow> error + bucket list" where
  "group_step i acc =
     (if bucket_key i \<notin> set (map bucket_familyKey acc)
         \<and> bucket_key i \<in> set object_prototype_names
      then Inl TypeError else Inr (add_to_bucket i acc))"

fun reduce_insights :: "insight list \<Rightarrow> bucket list \<Rightarrow> error + bucket list" where
  "reduce_insights [] acc = Inr acc"
| "reduce_insights (i # insights) acc =
     (case group_step i acc of Inl e \<Rightarrow> Inl e | Inr acc' \<Rightarrow> reduce_insights insights acc')"

text \<open>
  \<^verbatim>\<open>Object.values\<close> lists the properties whose key is an array index (a canonical decimal
  numeral below \<open>2^32 - 1\<close>) first, in ascending order, and then the others in the order
  of their creation.
\<close>

definition index_value :: "string \<Rightarrow> int" where
  "index_value s = foldl (\<lambda>n c. 10 * n + (of_char c - 48)) 0 s"

definition is_array_index :: "string \<Rightarrow> bool" where
  "is_array_index s \<longleftrightarrow>
     s \<noteq> [] \<and> set s \<subseteq> set ''0123456789'' \<and> (s = ''0'' \<or> hd s \<noteq> CHR ''0'')
     \<and> index_value s < 4294967295"

definition object_values :: "bucket list \<Rightarrow> bucket list" where
  "object_values acc =
     sort_key (\<lambda>b. index_value (bucket_familyKey b))
       (filter (\<lambda>b. is_array_index (bucket_familyKey b)) acc)
     @ filter (\<lambda>b. \<not> is_array_index (bucket_familyKey b)) acc"

definition sort_bucket :: "bucket \<Rightarrow> bucket" where
  "sort_bucket b =
     b\<lparr>bucket_insights := array_sort (SortCompare compareInsights) (bucket_insights b)\<rparr>"

definition compareBuckets :: "bucket \<Rightarrow> bucket \<Rightarrow> int option" where
  "compareBuckets a b =
     (case (bucket_insights a, bucket_insights b) of
        ([], []) \<Rightarrow> Some 0
      | ([], _ # _) \<Rightarrow> Some 1
      | (_ # _, []) \<Rightarrow> Some (- 1)
      | (x # _, y # _) \<Rightarrow> compareInsights x y)"

definition sortBuckets :: "bucket list \<Rightarrow> bucket list" where
  "sortBuckets buckets = array_sort (SortCompare compareBuckets) buckets"

text \<open>
  One run of \<^verbatim>\<open>for (const bucket of buckets)\<close>: an empty bucket is skipped; otherwise its
  head is shifted into the selection, and the loop breaks when the selection reaches the
  limit. The result is the buckets, the selection and \<^verbatim>\<open>addedInPass\<close>.
\<close>

fun run_pass ::
  "nat \<Rightarrow> bucket list \<Rightarrow> insight list \<Rightarrow> bool \<Rightarrow> bucket list \<times> insight list \<times> bool" where
  "run_pass limit [] selection added = ([], selection, added)"
| "run_pass limit (b # bs) selection added =
     (case bucket_insights b of
        [] \<Rightarrow>
          (case run_pass limit bs selection added of
             (bs', selection', added') \<Rightarrow> (b # bs', selection', added'))
      | x # rest \<Rightarrow>
          (let b' = b\<lparr>bucket_insights := rest\<rparr>; selection' = selection @ [x] in
           if length selection' = limit then (b' # bs, selection', True)
           else (case run_pass limit bs selection' True of
                   (bs', selection'', added') \<Rightarrow> (b' # bs', selection'', added'))))"

lemma run_pass_grows:
  "run_pass limit bs selection added = (bs', selection', added') \<Longrightarrow>
     length selection \<le> length selection' \<and> (added' \<longrightarrow> added \<or> length selection < length selection')"
proof (induction bs arbitrary: selection added bs' selection' added')
  case Nil
  then show ?case by simp
next
  case (Cons b bs)
  show ?case
  proof (cases "bucket_insights b")
    case Nil
    with Cons.prems obtain bs2 where
      "run_pass limit bs selection added = (bs2, selection', added')"
      by (auto split: prod.splits)
    from Cons.IH [OF this] show ?thesis .
  next
    case (Cons x rest)
    show ?thesis
    proof (cases "length (selection @ [x]) = limit")
      case True
      with Cons Cons.prems show ?thesis by (auto simp: Let_def)
    next
      case False
      with Cons Cons.prems obtain bs2 where
        "run_pass limit bs (selection @ [x]) True = (bs2, selection', added')"
        by (auto simp: Let_def split: prod.splits)
      from Cons.IH [OF this] show ?thesis by simp
    qed
  qed
qed

text \<open>The \<^verbatim>\<open>while (selection.length < limit)\<close> loop, with \<^verbatim>\<open>sortBuckets()\<close> after each pass.\<close>

function select_loop :: "nat \<Rightarrow> bucket list \<Rightarrow> insight list \<Rightarrow> insight list" where
  "select_loop limit buckets selection =
     (if length selection < limit then
        (case run_pass limit buckets selection False of
           (buckets', selection', addedInPass) \<Rightarrow>
             if \<not> addedInPass then selection'
             else select_loop limit (sortBuckets buckets') selection')
      else selection)"
  by pat_completeness auto
termination
proof (relation "measure (\<lambda>(limit, buckets, selection). limit - length selection)")
  show "wf (measure (\<lambda>(limit, buckets, selection). limit - length selection))"
    by simp
next
  fix limit :: nat and buckets buckets' :: "bucket list"
    and selection selection' :: "insight list" and y addedInPass
  assume lt: "length selection < limit"
    and run: "(buckets', y) = run_pass limit buckets selection False"
    and y: "(selection', addedInPass) = y"
    and added: "\<not> \<not> addedInPass"
  then have "run_pass limit buckets selection False = (buckets', selection', addedInPass)"
    by simp
  from run_pass_grows [OF this] added have "length selection < length selection'"
    by simp
  with lt show "((limit, sortBuckets buckets', selection'), (limit, buckets, selection))
      \<in> measure (\<lambda>(limit, buckets, selection). limit - length selection)"
    by simp
qed

declare select_loop.simps [simp del]

text \<open>The function: the list it returns, or the error it throws.\<close>

definition getDiverseInsights :: "insight list \<Rightarrow> nat \<Rightarrow> error + insight list" where
  "getDiverseInsights insights limit =
     (if insights = [] then Inr []
      else (case reduce_insights insights [] of
              Inl e \<Rightarrow> Inl e
            | Inr acc \<Rightarrow>
                Inr (select_loop limit (sortBuckets (map sort_bucket (object_values acc))) [])))"

subsection \<open>Example trees for the merger\<close>

text \<open>An insight as the backend sends it, before the merger writes its origin over it.\<close>

definition raw_insight :: "nat \<Rightarrow> string \<Rightarrow> string \<Rightarrow> insight" where
  "raw_insight n t p =
     \<lparr>insight_id = n, title = t, priority = Some p, created_at = Missing, updated_at = Missing,
      family = None, familyKey = None, domainKey = None\<rparr>"

text \<open>
  Five low-priority insights with different titles in a family of quick score 5, then one
  high-priority insight in a family of the default quick score. Nothing collides, so the
  merger returns all six.
\<close>

definition rank_tree :: "domain_node list" where
  "rank_tree =
     [\<lparr>domain_key = ''cash_flow'', families =
         [\<lparr>family_key = ''balance_warning'', family_insights =
             [raw_insight 1 ''Checking is low'' ''low'',
              raw_insight 2 ''Savings is low'' ''low'',
              raw_insight 3 ''Joint account is low'' ''low'',
              raw_insight 4 ''Travel card is low'' ''low'',
              raw_insight 5 ''Rent account is low'' ''low'']\<rparr>]\<rparr>,
      \<lparr>domain_key = ''behavior_lifestyle'', families =
         [\<lparr>family_key = ''habit_frequency'', family_insights =
             [raw_insight 6 ''Weekly habit'' ''high'']\<rparr>]\<rparr>]"

text \<open>
  One family listed under two domains: a title that occurs four times with the priorities
  medium, high, high and an unknown one, and a title that occurs twice with priority low.
\<close>

definition merge_example :: "domain_node list" where
  "merge_example =
     [\<lparr>domain_key = ''spending_patterns'', families =
         [\<lparr>family_key = ''favorite_merchants'', family_insights =
             [raw_insight 1 ''Cafe Uno is a Favorite'' ''medium'',
              raw_insight 2 ''Cafe Uno is a Favorite'' ''high'',
              raw_insight 3 ''Cafe Uno is a Favorite'' ''high'',
              raw_insight 4 ''Deli Dos is a Favorite'' ''low'']\<rparr>]\<rparr>,
      \<lparr>domain_key = ''behavior_lifestyle'', families =
         [\<lparr>family_key = ''favorite_merchants'', family_insights =
             [raw_insight 5 ''Deli Dos is a Favorite'' ''low'',
              raw_insight 6 ''Cafe Uno is a Favorite'' ''urgent'']\<rparr>]\<rparr>]"

text \<open>
  Two insights of one family and one title: the first with a priority that names a member
  of \<^verbatim>\<open>Object.prototype\<close>, the second of high priority.
\<close>

definition inherited_priority_tree :: "domain_node list" where
  "inherited_priority_tree =
     [\<lparr>domain_key = ''spending_patterns'', families =
         [\<lparr>family_key = ''favorite_merchants'', family_insights =
             [raw_insight 1 ''Cafe Uno is a Favorite'' ''constructor'',
              raw_insight 2 ''Cafe Uno is a Favorite'' ''high'']\<rparr>]\<rparr>]"

text \<open>
  Two families whose keys and titles give the same map key \<^verbatim>\<open>a|b|c\<close>: family \<^verbatim>\<open>a|b\<close> with two
  insights titled \<^verbatim>\<open>c\<close>, and family \<^verbatim>\<open>a\<close> with one insight titled \<^verbatim>\<open>b|c\<close>.
\<close>

definition colliding_key_tree :: "domain_node list" where
  "colliding_key_tree =
     [\<lparr>domain_key = ''spending_patterns'', families =
         [\<lparr>family_key = ''a|b'', family_insights =
             [raw_insight 1 ''c'' ''low'', raw_insight 2 ''c'' ''medium'']\<rparr>,
          \<lparr>family_key = ''a'', family_insights = [raw_insight 3 ''b|c'' ''high'']\<rparr>]\<rparr>]"

subsection \<open>The diversity selector, as specified\<close>

text \<open>
  An insight is plain when none of the keys the selector looks up for it names a member of
  \<^verbatim>\<open>Object.prototype\<close>: the key of its bucket, the family of its quick score, and its
  priority in lower case.
\<close>

definition plain_insight :: "insight \<Rightarrow> bool" where
  "plain_insight i \<longleftrightarrow>
     bucket_key i \<notin> set object_prototype_names
     \<and> (case js_or (familyKey i) (family i) of
          None \<Rightarrow> True | Some k \<Rightarrow> k \<notin> set object_prototype_names)
     \<and> (case priority i of
          None \<Rightarrow> True | Some s \<Rightarrow> toLowerCase s \<notin> set object_prototype_names)"

text \<open>
  The buckets before the first pass, where no key throws: grouped, each bucket sorted, the
  buckets sorted.
\<close>

definition group_by_family :: "insight list \<Rightarrow> bucket list" where
  "group_by_family insights = object_values (fold add_to_bucket insights [])"

definition initial_buckets :: "insight list \<Rightarrow> bucket list" where
  "initial_buckets insights = sortBuckets (map sort_bucket (group_by_family insights))"




text \<open>
  The algorithm of the code, pass by pass: a pass takes the head of every non-empty bucket,
  in the order of the buckets, and the buckets are sorted again only after the pass.
\<close>

definition heads :: "bucket list \<Rightarrow> insight list" where
  "heads bs = concat (map (\<lambda>b. take 1 (bucket_insights b)) bs)"

definition tails :: "bucket list \<Rightarrow> bucket list" where
  "tails bs = map (\<lambda>b. b\<lparr>bucket_insights := drop 1 (bucket_insights b)\<rparr>) bs"

definition bucket_total :: "bucket list \<Rightarrow> nat" where
  "bucket_total bs = sum_list (map (\<lambda>b. length (bucket_insights b)) bs)"

lemma mset_insert_sorted: "mset (insert_sorted cmp x ys) = add_mset x (mset ys)"
  by (induction ys) simp_all

lemma mset_array_sort: "mset (array_sort cmp xs) = mset xs"
  by (induction xs) (simp_all add: array_sort_def mset_insert_sorted)

lemma bucket_total_sortBuckets: "bucket_total (sortBuckets bs) = bucket_total bs"
proof -
  have "mset (map (\<lambda>b. length (bucket_insights b)) (sortBuckets bs))
      = mset (map (\<lambda>b. length (bucket_insights b)) bs)"
    by (simp add: sortBuckets_def mset_array_sort)
  then show ?thesis unfolding bucket_total_def by (metis sum_mset_sum_list)
qed

lemma bucket_total_tails: "bucket_total (tails bs) + length (heads bs) = bucket_total bs"
  by (induction bs) (auto simp: bucket_total_def tails_def heads_def)

function passes :: "bucket list \<Rightarrow> insight list list" where
  "passes bs = (if heads bs = [] then [] else heads bs # passes (sortBuckets (tails bs)))"
  by pat_completeness auto
termination
proof (relation "measure bucket_total")
  show "wf (measure bucket_total)" by simp
next
  fix bs :: "bucket list"
  assume "heads bs \<noteq> []"
  then have "1 \<le> length (heads bs)" by (cases "heads bs") simp_all
  with bucket_total_tails [of bs] have "bucket_total (tails bs) < bucket_total bs"
    by linarith
  then show "(sortBuckets (tails bs), bs) \<in> measure bucket_total"
    by (simp add: bucket_total_sortBuckets)
qed

declare passes.simps [simp del]


definition three_by_three :: "insight list" where
  "three_by_three =
     map (\<lambda>n. mk_insight n ''Balance'' ''high'' ''balance_warning'' ''cash_flow'') [1, 2, 3]
     @ map (\<lambda>n. mk_insight n ''Loyalty'' ''medium'' ''merchant_loyalty'' ''spending_patterns'') [4, 5, 6]
     @ map (\<lambda>n. mk_insight n ''Fees'' ''low'' ''fee_detection'' ''optimization_rewards'') [7, 8, 9]"

text \<open>
  Two insights of two families with the same quick score: the first with the priority
  \<^verbatim>\<open>constructor\<close>, the second of high priority.
\<close>

definition inherited_priority_example :: "insight list" where
  "inherited_priority_example =
     [mk_insight 1 ''Loyal to Cafe Uno'' ''constructor'' ''merchant_loyalty'' ''spending_patterns'',
      mk_insight 2 ''Two music services'' ''high'' ''duplicate_services'' ''optimization_rewards'']"

text \<open>One insight whose family key names a member of \<^verbatim>\<open>Object.prototype\<close>.\<close>

definition inherited_family_example :: "insight list" where
  "inherited_family_example =
     [mk_insight 1 ''Builders near you'' ''high'' ''constructor'' ''spending_patterns'']"

text \<open>Three insights without \<^verbatim>\<open>family\<close> and \<^verbatim>\<open>familyKey\<close>, and one with a family.\<close>

definition uncategorized_example :: "insight list" where
  "uncategorized_example =
     [raw_insight 1 ''First'' ''high'', raw_insight 2 ''Second'' ''medium'',
      mk_insight 3 ''Fees'' ''low'' ''fee_detection'' ''optimization_rewards'',
      raw_insight 4 ''Third'' ''low'']"


text \<open>
  Predicates for the properties of the selector. \<open>well_keyed\<close>: the keys of the buckets are
  distinct and every insight sits in the bucket of its key. \<open>grouped xs bs\<close>: the buckets
  \<open>bs\<close> partition the insights \<open>xs\<close> by bucket key. \<open>uncategorized\<close>: \<^verbatim>\<open>family\<close> and
  \<^verbatim>\<open>familyKey\<close> are both missing (or empty).
\<close>

definition well_keyed :: "bucket list \<Rightarrow> bool" where
  "well_keyed bs \<longleftrightarrow>
     distinct (map bucket_familyKey bs)
     \<and> (\<forall>b \<in> set bs. \<forall>i \<in> set (bucket_insights b). bucket_key i = bucket_familyKey b)"

definition grouped :: "insight list \<Rightarrow> bucket list \<Rightarrow> bool" where
  "grouped xs bs \<longleftrightarrow>
     distinct (map bucket_familyKey bs)
     \<and> bucket_familyKey ` set bs = bucket_key ` set xs
     \<and> (\<forall>b \<in> set bs. mset (bucket_insights b)
           = mset (filter (\<lambda>i. bucket_key i = bucket_familyKey b) xs))
     \<and> mset (concat (map bucket_insights bs)) = mset xs"

definition uncategorized :: "insight \<Rightarrow> bool" where
  "uncategorized i \<longleftrightarrow> \<not> truthy (family i) \<and> \<not> truthy (familyKey i)"

subsection \<open>\<^verbatim>\<open>Dashboard.jsx\<close>: the projection engine\<close>

text \<open>
  A transaction as \<^verbatim>\<open>buildFinancialProjection\<close> reads it. Of the \<^verbatim>\<open>Date\<close> built from
  \<^verbatim>\<open>transaction.date\<close> the code reads the UTC year and month only, so the parsed date is the
  number of its month, \<open>12 * year + monthIndex\<close> (years from 0 on), and \<open>None\<close> is an
  invalid date. \<open>tx_amount\<close> is \<^verbatim>\<open>Number(transaction.amount)\<close>, with \<open>None\<close> for \<^verbatim>\<open>NaN\<close>. Amounts
  are real numbers: rounding of floating-point arithmetic is not modelled.
\<close>

record transaction =
  tx_date :: "nat option"
  tx_amount :: "real option"
  category_primary :: "string option"

record month_bucket =
  income :: real
  spending :: real
  categories :: "(string \<times> real) list"
  incomeEvents :: "real list"
  spendingEvents :: "real list"
  sampleTransactions :: "transaction list"

text \<open>Decimal digits of a number, and \<^verbatim>\<open>Number\<close> on a string of digits.\<close>

definition digit_char :: "nat \<Rightarrow> char" where
  "digit_char n = ''0123456789'' ! (n mod 10)"

fun string_of_nat :: "nat \<Rightarrow> string" where
  "string_of_nat n =
     (if n < 10 then [digit_char n] else string_of_nat (n div 10) @ [digit_char (n mod 10)])"

declare string_of_nat.simps [simp del]

definition digit_val :: "char \<Rightarrow> nat" where
  "digit_val c = (case map_of (zip ''0123456789'' [0, 1, 2, 3, 4, 5, 6, 7, 8, 9]) c of
     None \<Rightarrow> 0 | Some v \<Rightarrow> v)"

definition nat_of_string :: "string \<Rightarrow> nat" where
  "nat_of_string s = foldl (\<lambda>n c. 10 * n + digit_val c) 0 s"

text \<open>\<^verbatim>\<open>String(n).padStart(2, '0')\<close>.\<close>

definition padStart2 :: "string \<Rightarrow> string" where
  "padStart2 s = replicate (2 - length s) (CHR ''0'') @ s"

definition toMonthKey :: "nat \<Rightarrow> string" where
  "toMonthKey date = string_of_nat (date div 12) @ ''-'' @ padStart2 (string_of_nat (date mod 12 + 1))"

text \<open>\<^verbatim>\<open>String.prototype.split\<close> with a one-character separator.\<close>

fun split_on :: "char \<Rightarrow> string \<Rightarrow> string list" where
  "split_on c [] = [[]]"
| "split_on c (x # xs) =
     (if x = c then [] # split_on c xs
      else (case split_on c xs of [] \<Rightarrow> [[x]] | w # ws \<Rightarrow> (x # w) # ws))"

text \<open>
  \<^verbatim>\<open>new Date(Date.UTC(year, month - 1, 1))\<close>, as the number of the month; \<^verbatim>\<open>Date.UTC\<close> reads a
  year from 0 to 99 as 1900 plus that year. Keys come from \<open>toMonthKey\<close> and so have two
  parts.
\<close>

definition monthKeyToDate :: "string \<Rightarrow> nat" where
  "monthKeyToDate key =
     (case map nat_of_string (split_on (CHR ''-'') key) of
        year # month # _ \<Rightarrow> 12 * (if year \<le> 99 then 1900 + year else year) + (month - 1)
      | _ \<Rightarrow> 0)"

definition average :: "real list \<Rightarrow> real" where
  "average values = (if values = [] then 0 else sum_list values / real (length values))"

definition stddev :: "real list \<Rightarrow> real" where
  "stddev values =
     (if length values < 2 then 0
      else (let avg = average values;
                variance = average (map (\<lambda>v. (v - avg) ^ 2) values)
            in sqrt variance))"

text \<open>\<^verbatim>\<open>String.prototype.toUpperCase\<close> on ASCII letters, for the first letter of a word.\<close>

definition upper_char :: "char \<Rightarrow> char" where
  "upper_char c =
     (case map_of (zip ''abcdefghijklmnopqrstuvwxyz'' ''ABCDEFGHIJKLMNOPQRSTUVWXYZ'') c of
        None \<Rightarrow> c | Some u \<Rightarrow> u)"

definition capitalize :: "string \<Rightarrow> string" where
  "capitalize word = (case word of [] \<Rightarrow> [] | c # rest \<Rightarrow> upper_char c # rest)"

fun join_with :: "string \<Rightarrow> string list \<Rightarrow> string" where
  "join_with sep [] = []"
| "join_with sep [w] = w"
| "join_with sep (w # ws) = w @ sep @ join_with sep ws"

definition formatCategoryLabel :: "string \<Rightarrow> string" where
  "formatCategoryLabel label =
     (if label = [] then ''General''
      else join_with '' '' (map capitalize (split_on (CHR ''_'') (toLowerCase label))))"

text \<open>\<^verbatim>\<open>Number(transaction.amount) || 0\<close>.\<close>

definition amount_of :: "transaction \<Rightarrow> real" where
  "amount_of t = (case tx_amount t of None \<Rightarrow> 0 | Some a \<Rightarrow> a)"

definition category_of :: "transaction \<Rightarrow> string" where
  "category_of t = formatCategoryLabel (or_else (category_primary t) ''Other'')"

definition empty_bucket :: month_bucket where
  "empty_bucket =
     \<lparr>income = 0, spending = 0, categories = [], incomeEvents = [], spendingEvents = [],
      sampleTransactions = []\<rparr>"

text \<open>What the callback of \<^verbatim>\<open>transactions.forEach\<close> does to the bucket of the month.\<close>

definition record_transaction :: "transaction \<Rightarrow> month_bucket \<Rightarrow> month_bucket" where
  "record_transaction t bucket =
     (let amount = amount_of t;
          category = category_of t;
          bucket = bucket\<lparr>sampleTransactions := sampleTransactions bucket @ [t]\<rparr>
      in if amount < 0 then
           (let incomeAmount = \<bar>amount\<bar> in
            bucket\<lparr>income := income bucket + incomeAmount,
                   incomeEvents := incomeEvents bucket @ [incomeAmount]\<rparr>)
         else
           bucket\<lparr>spending := spending bucket + amount,
                  spendingEvents := spendingEvents bucket @ [amount],
                  categories := AList.update category
                    ((case map_of (categories bucket) category of None \<Rightarrow> 0 | Some v \<Rightarrow> v) + amount)
                    (categories bucket)\<rparr>)"

text \<open>
  The callback itself: a transaction with an invalid date is skipped; a new month gets an
  empty bucket at the end of the \<^verbatim>\<open>Map\<close>; the bucket of the month is updated in place.
\<close>

definition add_transaction ::
  "transaction \<Rightarrow> (string \<times> month_bucket) list \<Rightarrow> (string \<times> month_bucket) list" where
  "add_transaction t monthBuckets =
     (case tx_date t of
        None \<Rightarrow> monthBuckets
      | Some date \<Rightarrow>
          (let key = toMonthKey date;
               monthBuckets = (if map_of monthBuckets key = None
                               then monthBuckets @ [(key, empty_bucket)] else monthBuckets)
           in map (\<lambda>(k, b). if k = key then (k, record_transaction t b) else (k, b)) monthBuckets))"

definition bucketTransactions :: "transaction list \<Rightarrow> (string \<times> month_bucket) list" where
  "bucketTransactions transactions = fold add_transaction transactions []"

record month_data =
  md_key :: string
  md_date :: nat
  md_income :: real
  md_spending :: real
  md_net :: real
  md_categories :: "(string \<times> real) list"
  md_incomeEvents :: "real list"
  md_spendingEvents :: "real list"

definition MAX_HISTORY :: nat where
  "MAX_HISTORY = 6"

definition FUTURE_MONTHS :: nat where
  "FUTURE_MONTHS = 4"

text \<open>
  \<^verbatim>\<open>Array.from(monthBuckets.keys()).sort()\<close> sorts the keys as strings, and
  \<^verbatim>\<open>slice(-MAX_HISTORY)\<close> keeps the last six.
\<close>

definition selectedKeys :: "(string \<times> month_bucket) list \<Rightarrow> string list" where
  "selectedKeys monthBuckets =
     (let orderedKeys = sort (map fst monthBuckets)
      in drop (length orderedKeys - MAX_HISTORY) orderedKeys)"

definition month_entry :: "(string \<times> month_bucket) list \<Rightarrow> string \<Rightarrow> month_data" where
  "month_entry monthBuckets key =
     (let bucket = (case map_of monthBuckets key of None \<Rightarrow> empty_bucket | Some b \<Rightarrow> b) in
      \<lparr>md_key = key, md_date = monthKeyToDate key, md_income = income bucket,
       md_spending = spending bucket, md_net = income bucket - spending bucket,
       md_categories = categories bucket, md_incomeEvents = incomeEvents bucket,
       md_spendingEvents = spendingEvents bucket\<rparr>)"

definition monthlyData_of :: "transaction list \<Rightarrow> month_data list" where
  "monthlyData_of transactions =
     (let monthBuckets = bucketTransactions transactions
      in map (month_entry monthBuckets) (selectedKeys monthBuckets))"

datatype reason = collecting | insufficient

datatype confidence = high | medium | low

record history_entry =
  he_date :: nat
  actualBalance :: real
  he_income :: real
  he_spending :: real
  he_net :: real
  anomaly :: bool

record forecast_entry =
  fe_date :: nat
  projectedBalance :: real
  upperBound :: real
  lowerBound :: real
  coneHeight :: real
  projectedNet :: real

record projection =
  history :: "history_entry list"
  forecast :: "forecast_entry list"
  incomeConfidence :: confidence
  expectedIncome :: real
  expectedSpending :: real
  netChange :: real

datatype projection_result = NoData reason | HasData projection

definition confidence_of :: "real \<Rightarrow> real \<Rightarrow> confidence" where
  "confidence_of avgIncome incomeStd =
     (if avgIncome > 0 then
        (let varianceRatio = incomeStd / avgIncome in
         if varianceRatio < 0.2 then high else if varianceRatio < 0.45 then medium else low)
      else low)"

text \<open>
  The backward walk: \<open>reversed\<close> has the most recent month first; each month gets the
  running balance, then its net is subtracted. The state is \<open>historicalLine\<close> and
  \<open>runningBalance\<close>.
\<close>

definition walk_back :: "month_data list \<Rightarrow> real \<Rightarrow> (month_data \<times> real) list" where
  "walk_back reversed currentBalance =
     rev (fst (fold (\<lambda>entry (historicalLine, runningBalance).
                      (historicalLine @ [(entry, runningBalance)], runningBalance - md_net entry))
            reversed ([], currentBalance)))"

text \<open>
  The forecast loop \<^verbatim>\<open>for (let i = 1; i <= FUTURE_MONTHS; i += 1)\<close>; the state is
  \<open>projections\<close> and the three running balances.
\<close>

definition forecast_step ::
  "nat \<Rightarrow> real \<Rightarrow> real \<Rightarrow> nat \<Rightarrow>
     forecast_entry list \<times> real \<times> real \<times> real \<Rightarrow> forecast_entry list \<times> real \<times> real \<times> real" where
  "forecast_step lastDate net volatility i st =
     (case st of (projections, projected, upper, lower) \<Rightarrow>
        (let projected = projected + net;
             upper = upper + (net + volatility);
             lower = lower + (net - volatility)
         in (projections @
               [\<lparr>fe_date = lastDate + i, projectedBalance = projected, upperBound = upper,
                 lowerBound = lower, coneHeight = max (upper - lower) 0, projectedNet = net\<rparr>],
             projected, upper, lower)))"

text \<open>
  The function. The balance is \<open>None\<close> for \<^verbatim>\<open>null\<close> or \<^verbatim>\<open>undefined\<close>. Of the returned object
  the model keeps the timeline (historical and forecast entries apart), the confidence
  and the three averages; the texts for display (labels, top categories, outlook, risk
  indicators) are left out. \<open>historicalLine\<close> has at least three entries where it is
  used, so the fallbacks \<^verbatim>\<open>?? Number(currentBalance)\<close> and \<^verbatim>\<open>|| new Date()\<close> are never taken; the
  model writes the balance and 0 there.
\<close>

definition buildFinancialProjection :: "transaction list \<Rightarrow> real option \<Rightarrow> projection_result" where
  "buildFinancialProjection transactions currentBalance =
     (case currentBalance of
        None \<Rightarrow> NoData collecting
      | Some balance \<Rightarrow>
          if transactions = [] then NoData collecting
          else
            (let monthlyData = monthlyData_of transactions in
             if length monthlyData < 3 then NoData insufficient
             else
               (let avgIncome = average (filter (\<lambda>v. v > 0) (map md_income monthlyData));
                    avgSpending = average (map md_spending monthlyData);
                    spendingStd = stddev (map md_spending monthlyData);
                    net = avgIncome - avgSpending;
                    volatility = (if spendingStd \<noteq> 0 then spendingStd else avgSpending * 0.15);
                    incomeStd = stddev (concat (map md_incomeEvents monthlyData));
                    historical =
                      array_sort (\<lambda>a b. int (md_date a) - int (md_date b)) monthlyData;
                    reversed =
                      array_sort (\<lambda>a b. int (md_date b) - int (md_date a)) historical;
                    historicalLine = walk_back reversed balance;
                    lastHistoricalBalance =
                      (if historicalLine = [] then balance else snd (last historicalLine));
                    lastDate = (if historicalLine = [] then 0 else md_date (fst (last historicalLine)));
                    projections =
                      fst (fold (forecast_step lastDate net volatility) [1 ..< FUTURE_MONTHS + 1]
                        ([], lastHistoricalBalance, lastHistoricalBalance, lastHistoricalBalance))
                in HasData
                    \<lparr>history =
                       map (\<lambda>(entry, bal).
                             \<lparr>he_date = md_date entry, actualBalance = bal,
                              he_income = md_income entry, he_spending = md_spending entry,
                              he_net = md_net entry,
                              anomaly = (spendingStd > 0
                                \<and> md_spending entry > avgSpending + spendingStd * 1.8)\<rparr>)
                         historicalLine,
                     forecast = projections,
                     incomeConfidence = confidence_of avgIncome incomeStd,
                     expectedIncome = avgIncome,
                     expectedSpending = avgSpending,
                     netChange = net\<rparr>)))"

subsection \<open>The projection engine: specification and example inputs\<close>

text \<open>The months of the transactions whose date parses, in the order of the ledger.\<close>

definition months_of :: "transaction list \<Rightarrow> nat list" where
  "months_of transactions =
     concat (map (\<lambda>t. case tx_date t of None \<Rightarrow> [] | Some d \<Rightarrow> [d]) transactions)"

definition tx :: "nat \<Rightarrow> real \<Rightarrow> string \<Rightarrow> transaction" where
  "tx d a c = \<lparr>tx_date = Some d, tx_amount = Some a, category_primary = Some c\<rparr>"

text \<open>
  The scenario of the specification. Months are numbered \<open>12 * year + monthIndex\<close>:
  24288 is January 2024. Each month has one income event of 2000 (a negative amount);
  spending is 1500 (in two transactions), 1700 and 1600. The ledger is not in
  chronological order.
\<close>

definition scenario :: "transaction list" where
  "scenario =
     [tx 24290 1600 ''RENT_AND_UTILITIES'', tx 24290 (- 2000) ''INCOME'',
      tx 24288 (- 2000) ''INCOME'', tx 24288 1000 ''RENT_AND_UTILITIES'',
      tx 24288 500 ''FOOD_AND_DRINK'',
      tx 24289 (- 2000) ''INCOME'', tx 24289 1700 ''RENT_AND_UTILITIES'']"

text \<open>The monthly data of the scenario.\<close>

definition scenario_months :: "month_data list" where
  "scenario_months =
     [\<lparr>md_key = ''2024-01'', md_date = 24288, md_income = 2000, md_spending = 1500, md_net = 500,
       md_categories = [(''Rent And Utilities'', 1000), (''Food And Drink'', 500)],
       md_incomeEvents = [2000], md_spendingEvents = [1000, 500]\<rparr>,
      \<lparr>md_key = ''2024-02'', md_date = 24289, md_income = 2000, md_spending = 1700, md_net = 300,
       md_categories = [(''Rent And Utilities'', 1700)],
       md_incomeEvents = [2000], md_spendingEvents = [1700]\<rparr>,
      \<lparr>md_key = ''2024-03'', md_date = 24290, md_income = 2000, md_spending = 1600, md_net = 400,
       md_categories = [(''Rent And Utilities'', 1600)],
       md_incomeEvents = [2000], md_spendingEvents = [1600]\<rparr>]"

text \<open>The bucket of a month in the \<^verbatim>\<open>Map\<close>, or the empty bucket a new month starts with.\<close>

definition bucket_at :: "(string \<times> month_bucket) list \<Rightarrow> string \<Rightarrow> month_bucket" where
  "bucket_at monthBuckets key =
     (case map_of monthBuckets key of None \<Rightarrow> empty_bucket | Some b \<Rightarrow> b)"

text \<open>
  Two months of history (January and March 2024) and a transaction whose date does not
  parse; and a transaction of March 2024 whose amount is not a number.
\<close>

definition two_months :: "transaction list" where
  "two_months =
     [tx 24290 1600 ''RENT_AND_UTILITIES'', tx 24290 (- 2000) ''INCOME'',
      \<lparr>tx_date = None, tx_amount = Some 40, category_primary = Some ''FOOD_AND_DRINK''\<rparr>,
      tx 24288 (- 2000) ''INCOME'', tx 24288 1500 ''RENT_AND_UTILITIES'']"

definition zero_tx :: transaction where
  "zero_tx = \<lparr>tx_date = Some 24290, tx_amount = None, category_primary = Some ''FOOD_AND_DRINK''\<rparr>"


section \<open>Verified properties\<close>

subsection \<open>Sorting\<close>

lemma set_insert_sorted: "set (insert_sorted cmp x ys) = insert x (set ys)"
  by (induction ys) auto

lemma set_array_sort: "set (array_sort cmp xs) = set xs"
  by (metis mset_array_sort set_mset_mset)

lemma length_array_sort: "length (array_sort cmp xs) = length xs"
  by (metis mset_array_sort size_mset)

text \<open>The sort reads the comparison function on the elements of the array only.\<close>

lemma insert_sorted_cong:
  "(\<And>y. y \<in> set ys \<Longrightarrow> f x y = g x y) \<Longrightarrow> insert_sorted f x ys = insert_sorted g x ys"
  by (induction ys) simp_all

lemma array_sort_cong:
  assumes "\<And>x y. x \<in> set xs \<Longrightarrow> y \<in> set xs \<Longrightarrow> f x y = g x y"
  shows "array_sort f xs = array_sort g xs"
  using assms
proof (induction xs)
  case Nil
  then show ?case by (simp add: array_sort_def)
next
  case (Cons x xs)
  have tl: "array_sort f xs = array_sort g xs"
    by (rule Cons.IH) (simp add: Cons.prems)
  have "insert_sorted f x (array_sort g xs) = insert_sorted g x (array_sort g xs)"
    by (rule insert_sorted_cong) (simp add: set_array_sort Cons.prems)
  with tl show ?case by (simp add: array_sort_def)
qed

subsection \<open>Sorting by priority rank is the library's stable sort\<close>

lemma insert_sorted_key:
  fixes f :: "'a \<Rightarrow> int"
  shows "insert_sorted (\<lambda>a b. f a - f b) x ys = insort_key f x ys"
  by (induction ys) auto

lemma array_sort_key:
  fixes f :: "'a \<Rightarrow> int"
  shows "array_sort (\<lambda>a b. f a - f b) xs = sort_key f xs"
  by (induction xs) (simp_all add: array_sort_def sort_key_def insert_sorted_key)

text \<open>On a priority that names no member of \<^verbatim>\<open>Object.prototype\<close> the lookup is the rank.\<close>

lemma rank_plain: "plain_priority p \<Longrightarrow> rank p = Num (spec_rank p)"
  by (auto simp: plain_priority_def rank_def spec_rank_def lookup_or_def split: option.splits)

lemma byPriorityRank_plain:
  assumes "plain_priority (priority a)" "plain_priority (priority b)"
  shows "SortCompare byPriorityRank a b = spec_rank (priority a) - spec_rank (priority b)"
  using assms
  by (simp add: SortCompare_def byPriorityRank_def priorityRank_def rank_plain js_minus_def)

lemma array_sort_byPriorityRank:
  assumes "\<forall>i \<in> set xs. plain_priority (priority i)"
  shows "array_sort (SortCompare byPriorityRank) xs = sort_key (\<lambda>i. spec_rank (priority i)) xs"
proof -
  have "array_sort (SortCompare byPriorityRank) xs
      = array_sort (\<lambda>a b. spec_rank (priority a) - spec_rank (priority b)) xs"
    by (rule array_sort_cong) (simp add: byPriorityRank_plain assms)
  then show ?thesis by (simp add: array_sort_key)
qed

lemma fold_insert_ids: "fold (\<lambda>i s. insert (insight_id i) s) xs sel = sel \<union> ids_of xs"
  by (induction xs arbitrary: sel) (auto simp: ids_of_def)

lemma pickTop_fst:
  "fst (pickTop xs P n sel) = take n (array_sort (SortCompare byPriorityRank) (filter P xs))"
  by (simp add: pickTop_def Let_def)

lemma pickTop_snd: "snd (pickTop xs P n sel) = sel \<union> ids_of (fst (pickTop xs P n sel))"
  by (simp add: pickTop_def Let_def fold_insert_ids)


subsection \<open>The truncation loop\<close>

lemma group_total_sum: "group_total gs = sum_list (map (\<lambda>g. length (group_insights g)) gs)"
proof -
  have "fold (\<lambda>g sum. sum + length (group_insights g)) gs n
      = n + sum_list (map (\<lambda>g. length (group_insights g)) gs)" for n
    by (induction gs arbitrary: n) simp_all
  then show ?thesis by (simp add: group_total_def)
qed

lemma group_total_concat: "group_total gs = length (concat (map group_insights gs))"
  by (simp add: group_total_sum length_concat comp_def)

lemma trim_group_eq:
  "trim_group ins e = (take (length ins - e) ins, e - length ins)"
proof (induction e arbitrary: ins)
  case 0
  then show ?case by simp
next
  case (Suc e)
  show ?case
  proof (cases ins rule: rev_cases)
    case Nil
    then show ?thesis by simp
  next
    case (snoc ys y)
    then show ?thesis using Suc [of ys] by simp
  qed
qed

text \<open>
  The truncation leaves a prefix of the groups, the last one possibly shortened; what it
  removes is the tail of the concatenated groups.
\<close>

lemma trim_groups_shape:
  "\<forall>g \<in> set pre. group_insights g \<noteq> [] \<Longrightarrow>
   \<exists>res. trim_groups (length pre) (pre @ post) e = res @ post
     \<and> length res \<le> length pre
     \<and> (\<forall>j < length res. group_key (res ! j) = group_key (pre ! j)
            \<and> group_insights (res ! j) \<noteq> []
            \<and> (\<exists>n. group_insights (res ! j) = take n (group_insights (pre ! j))))
     \<and> concat (map group_insights res)
         = take (group_total pre - e) (concat (map group_insights pre))"
proof (induction pre arbitrary: post e rule: rev_induct)
  case Nil
  then show ?case by (simp add: group_total_concat)
next
  case (snoc g pre)
  show ?case
  proof (cases "e = 0")
    case True
    have "trim_groups (length (pre @ [g])) ((pre @ [g]) @ post) e = (pre @ [g]) @ post"
      using True by simp
    moreover have "\<forall>j < length (pre @ [g]). group_insights ((pre @ [g]) ! j) \<noteq> []"
      using snoc.prems by (metis nth_mem)
    moreover have "\<forall>j < length (pre @ [g]). \<exists>n. group_insights ((pre @ [g]) ! j) = take n (group_insights ((pre @ [g]) ! j))"
      by (metis take_all order_refl)
    ultimately show ?thesis using True
      by (intro exI [of _ "pre @ [g]"]) (simp add: group_total_concat)
  next
    case False
    let ?n = "length (group_insights g)"
    have pre_ne: "\<forall>g \<in> set pre. group_insights g \<noteq> []" using snoc.prems by simp
    have g_ne: "group_insights g \<noteq> []" using snoc.prems by simp
    show ?thesis
    proof (cases "?n \<le> e")
      case True
      have step: "trim_groups (length (pre @ [g])) ((pre @ [g]) @ post) e
          = trim_groups (length pre) (pre @ post) (e - ?n)"
        using False True by (simp add: trim_group_eq splice1_def nth_append)
      from snoc.IH [OF pre_ne, of post "e - ?n"] obtain res where
        r: "trim_groups (length pre) (pre @ post) (e - ?n) = res @ post"
           "length res \<le> length pre"
           "\<forall>j < length res. group_key (res ! j) = group_key (pre ! j)
            \<and> group_insights (res ! j) \<noteq> []
            \<and> (\<exists>n. group_insights (res ! j) = take n (group_insights (pre ! j)))"
           "concat (map group_insights res)
             = take (group_total pre - (e - ?n)) (concat (map group_insights pre))"
        by blast
      have "\<forall>j < length res. (pre @ [g]) ! j = pre ! j"
        using r(2) by (simp add: nth_append)
      moreover have "take (group_total pre - (e - ?n)) (concat (map group_insights pre))
         = take (group_total (pre @ [g]) - e) (concat (map group_insights (pre @ [g])))"
        using True by (simp add: group_total_concat)
      ultimately show ?thesis using step r
        by (intro exI [of _ res]) simp
    next
      case gt: False
      let ?g' = "g\<lparr>group_insights := take (?n - e) (group_insights g)\<rparr>"
      have step: "trim_groups (length (pre @ [g])) ((pre @ [g]) @ post) e
          = trim_groups (length pre) (pre @ [?g'] @ post) 0"
        using False gt g_ne by (simp add: trim_group_eq nth_append list_update_append)
      also have "\<dots> = (pre @ [?g']) @ post"
        by (cases "length pre") simp_all
      finally have eq: "trim_groups (length (pre @ [g])) ((pre @ [g]) @ post) e = (pre @ [?g']) @ post" .
      have a: "\<forall>j < length (pre @ [?g']). group_key ((pre @ [?g']) ! j) = group_key ((pre @ [g]) ! j)
            \<and> group_insights ((pre @ [?g']) ! j) \<noteq> []
            \<and> (\<exists>n. group_insights ((pre @ [?g']) ! j) = take n (group_insights ((pre @ [g]) ! j)))"
      proof (intro allI impI)
        fix j assume j: "j < length (pre @ [?g'])"
        show "group_key ((pre @ [?g']) ! j) = group_key ((pre @ [g]) ! j)
            \<and> group_insights ((pre @ [?g']) ! j) \<noteq> []
            \<and> (\<exists>n. group_insights ((pre @ [?g']) ! j) = take n (group_insights ((pre @ [g]) ! j)))"
        proof (cases "j < length pre")
          case True
          then have "group_insights (pre ! j) \<noteq> []" using pre_ne by simp
          moreover have "\<exists>n. group_insights (pre ! j) = take n (group_insights (pre ! j))"
            by (metis take_all order_refl)
          ultimately show ?thesis using True by (simp add: nth_append)
        next
          case False
          then have "j = length pre" using j by simp
          then show ?thesis using gt g_ne by (auto simp: nth_append)
        qed
      qed
      have b: "concat (map group_insights (pre @ [?g']))
         = take (group_total (pre @ [g]) - e) (concat (map group_insights (pre @ [g])))"
        using gt by (simp add: group_total_concat)
      show ?thesis using eq a b
        by (intro exI [of _ "pre @ [?g']"]) simp
    qed
  qed
qed


subsection \<open>The domain loop\<close>

lemma domain_step_eq:
  "domain_step xs dk (sel, gs) =
     (let D = take 2 (array_sort (SortCompare byPriorityRank)
                (filter (\<lambda>i. domainKey i = Some dk \<and> insight_id i \<notin> sel) xs))
      in (sel \<union> ids_of D, gs @ (if D \<noteq> [] then [\<lparr>group_key = dk, group_insights = D\<rparr>] else [])))"
  by (simp add: domain_step_def Let_def fold_insert_ids)

lemma ids_of_take2_fresh:
  "ids_of (take n (array_sort (SortCompare byPriorityRank) (filter (\<lambda>i. P i \<and> insight_id i \<notin> sel) xs))) \<inter> sel = {}"
proof -
  have "set (take n (array_sort (SortCompare byPriorityRank) (filter (\<lambda>i. P i \<and> insight_id i \<notin> sel) xs)))
      \<subseteq> {i. insight_id i \<notin> sel}"
    using set_take_subset [of n "array_sort (SortCompare byPriorityRank) (filter (\<lambda>i. P i \<and> insight_id i \<notin> sel) xs)"]
    by (auto simp: set_array_sort)
  then show ?thesis by (auto simp: ids_of_def)
qed

lemma domain_loop_fresh:
  "\<exists>new. snd (fold (domain_step xs) ds (sel, gs)) = gs @ new
      \<and> fresh_groups sel new \<and> length new \<le> length ds"
proof (induction ds arbitrary: sel gs)
  case Nil
  then show ?case by simp
next
  case (Cons dk ds)
  define D where "D = take 2 (array_sort (SortCompare byPriorityRank)
      (filter (\<lambda>i. domainKey i = Some dk \<and> insight_id i \<notin> sel) xs))"
  define n1 where "n1 = (if D \<noteq> [] then [\<lparr>group_key = dk, group_insights = D\<rparr>] else [])"
  have step: "domain_step xs dk (sel, gs) = (sel \<union> ids_of D, gs @ n1)"
    by (simp add: domain_step_eq D_def n1_def Let_def)
  from Cons.IH [of "sel \<union> ids_of D" "gs @ n1"] obtain new where
    new: "snd (fold (domain_step xs) ds (sel \<union> ids_of D, gs @ n1)) = (gs @ n1) @ new"
      "fresh_groups (sel \<union> ids_of D) new" "length new \<le> length ds"
    by blast
  have fr: "ids_of D \<inter> sel = {}" unfolding D_def by (rule ids_of_take2_fresh)
  have "fresh_groups sel (n1 @ new)"
  proof (cases "D = []")
    case True
    then show ?thesis using new(2) by (simp add: n1_def ids_of_def)
  next
    case False
    then show ?thesis using new(2) fr by (simp add: n1_def D_def)
  qed
  moreover have "length (n1 @ new) \<le> length (dk # ds)"
    using new(3) by (simp add: n1_def)
  ultimately show ?case using new(1) step
    by (intro exI [of _ "n1 @ new"]) simp
qed

lemma fresh_groups_nth:
  "fresh_groups sel gs \<Longrightarrow> j < length gs \<Longrightarrow>
     group_insights (gs ! j) \<noteq> [] \<and> length (group_insights (gs ! j)) \<le> 2
     \<and> ids_of (group_insights (gs ! j)) \<inter> sel = {}
     \<and> (\<forall>i < j. ids_of (group_insights (gs ! i)) \<inter> ids_of (group_insights (gs ! j)) = {})"
proof (induction gs arbitrary: sel j)
  case Nil
  then show ?case by simp
next
  case (Cons g gs)
  show ?case
  proof (cases j)
    case 0
    then show ?thesis using Cons.prems by simp
  next
    case (Suc k)
    from Cons.prems Suc have k: "k < length gs" by simp
    from Cons.prems have f: "fresh_groups (sel \<union> ids_of (group_insights g)) gs" by simp
    note ih = Cons.IH [OF f k]
    have "\<forall>i < Suc k. ids_of (group_insights ((g # gs) ! i)) \<inter> ids_of (group_insights (gs ! k)) = {}"
    proof (intro allI impI)
      fix i assume "i < Suc k"
      then show "ids_of (group_insights ((g # gs) ! i)) \<inter> ids_of (group_insights (gs ! k)) = {}"
        using ih by (cases i) auto
    qed
    then show ?thesis using ih Suc by auto
  qed
qed

lemma initialSections_byDomain:
  "\<exists>new. byDomain (initialSections xs) = new \<and> length new \<le> 5
     \<and> fresh_groups (ids_of (keyHighlights (initialSections xs))
          \<union> ids_of (majorSpending (initialSections xs))
          \<union> ids_of (crossDomain (initialSections xs))) new"
proof -
  define kh where "kh = pickTop xs (\<lambda>i. True) 5 {}"
  define ms where "ms = pickTop xs isMajorSpending 3 (snd kh)"
  define cd where "cd = pickTop xs isCrossDomain 3 (snd ms)"
  from domain_loop_fresh [of xs domainOrder "snd cd" "[]"] obtain new where
    new: "snd (fold (domain_step xs) domainOrder (snd cd, [])) = new"
      "fresh_groups (snd cd) new" "length new \<le> length domainOrder"
    by auto
  have sel: "snd cd = ids_of (fst kh) \<union> ids_of (fst ms) \<union> ids_of (fst cd)"
    by (simp add: cd_def ms_def kh_def pickTop_snd)
  have "byDomain (initialSections xs) = new"
    using new(1) by (simp add: initialSections_def Let_def kh_def ms_def cd_def)
  moreover have "keyHighlights (initialSections xs) = fst kh"
    "majorSpending (initialSections xs) = fst ms" "crossDomain (initialSections xs) = fst cd"
    by (simp_all add: initialSections_def Let_def kh_def ms_def cd_def)
  moreover have "length domainOrder = 5" by (simp add: domainOrder_def)
  ultimately show ?thesis using new(2,3) sel by simp
qed

lemma initialSections_lengths:
  "length (keyHighlights (initialSections xs)) \<le> 5"
  "length (majorSpending (initialSections xs)) \<le> 3"
  "length (crossDomain (initialSections xs)) \<le> 3"
  by (simp_all add: initialSections_def Let_def pickTop_fst)


subsection \<open>The returned sections\<close>

lemma fresh_groups_nonempty: "fresh_groups sel gs \<Longrightarrow> \<forall>g \<in> set gs. group_insights g \<noteq> []"
  by (induction gs arbitrary: sel) auto

text \<open>The returned groups against the groups before truncation.\<close>
lemma byDomain_trimmed:
  "\<exists>res. byDomain (buildAllDomainSections xs) = res
     \<and> length res \<le> length (byDomain (initialSections xs))
     \<and> (\<forall>j < length res. group_key (res ! j) = group_key (byDomain (initialSections xs) ! j)
            \<and> group_insights (res ! j) \<noteq> []
            \<and> (\<exists>n. group_insights (res ! j) = take n (group_insights (byDomain (initialSections xs) ! j))))
     \<and> concat (map group_insights res)
         = take (group_total (byDomain (initialSections xs)) - (section_total (initialSections xs) - MAX_TOTAL))
             (concat (map group_insights (byDomain (initialSections xs))))"
proof -
  let ?ini = "initialSections xs"
  let ?G = "byDomain ?ini"
  let ?e = "section_total ?ini - MAX_TOTAL"
  from initialSections_byDomain [of xs] obtain sel where fr: "fresh_groups sel ?G" by blast
  then have ne: "\<forall>g \<in> set ?G. group_insights g \<noteq> []" by (rule fresh_groups_nonempty)
  from trim_groups_shape [OF ne, of "[]" ?e] obtain res where
    res: "trim_groups (length ?G) ?G ?e = res" "length res \<le> length ?G"
      "\<forall>j < length res. group_key (res ! j) = group_key (?G ! j)
            \<and> group_insights (res ! j) \<noteq> []
            \<and> (\<exists>n. group_insights (res ! j) = take n (group_insights (?G ! j)))"
      "concat (map group_insights res) = take (group_total ?G - ?e) (concat (map group_insights ?G))"
    by auto
  show ?thesis
  proof (cases "section_total ?ini > MAX_TOTAL")
    case True
    then have "byDomain (buildAllDomainSections xs) = res"
      using res(1) by (simp add: buildAllDomainSections_def Let_def)
    then show ?thesis using res(2,3,4) by simp
  next
    case False
    then have eq: "byDomain (buildAllDomainSections xs) = ?G"
      by (simp add: buildAllDomainSections_def Let_def)
    have "\<forall>j < length ?G. group_insights (?G ! j) \<noteq> []
        \<and> (\<exists>n. group_insights (?G ! j) = take n (group_insights (?G ! j)))"
      using ne by (metis nth_mem take_all order_refl)
    moreover have "?e = 0" using False by simp
    ultimately show ?thesis using eq by (simp add: group_total_concat)
  qed
qed

lemma pick_groups_unchanged:
  "keyHighlights (buildAllDomainSections xs) = keyHighlights (initialSections xs)"
  "majorSpending (buildAllDomainSections xs) = majorSpending (initialSections xs)"
  "crossDomain (buildAllDomainSections xs) = crossDomain (initialSections xs)"
  by (simp_all add: buildAllDomainSections_def Let_def)

text \<open>
  Claim C8. For every list of merged insights, the four returned groups hold at most
  \<open>MAX_TOTAL = 15\<close> insights: the returned total is the smaller of the selected total and
  15. The three \<^verbatim>\<open>pickTop\<close> groups are returned as selected; the insights of the returned domain
  groups, read in order, are the insights of the selected domain groups with the excess
  cut off the end, so insights leave the last groups of the priority order first; the
  returned groups are the leading selected groups; and no returned group is empty, a
  group that the truncation empties being dropped.
\<close>

theorem section_total_capped:
  "section_total (buildAllDomainSections xs) = min (section_total (initialSections xs)) MAX_TOTAL
   \<and> concat (map group_insights (byDomain (buildAllDomainSections xs)))
       = take (group_total (byDomain (initialSections xs)) - (section_total (initialSections xs) - MAX_TOTAL))
           (concat (map group_insights (byDomain (initialSections xs))))
   \<and> map group_key (byDomain (buildAllDomainSections xs))
       = take (length (byDomain (buildAllDomainSections xs))) (map group_key (byDomain (initialSections xs)))
   \<and> [] \<notin> set (map group_insights (byDomain (buildAllDomainSections xs)))"
proof -
  let ?ini = "initialSections xs"
  let ?fin = "buildAllDomainSections xs"
  let ?G = "byDomain ?ini"
  let ?e = "section_total ?ini - MAX_TOTAL"
  have len: "length (byDomain ?fin) \<le> length ?G"
    using byDomain_trimmed [of xs] by blast
  have nth: "\<forall>j < length (byDomain ?fin). group_key (byDomain ?fin ! j) = group_key (?G ! j)
            \<and> group_insights (byDomain ?fin ! j) \<noteq> []"
    using byDomain_trimmed [of xs] by blast
  have cc: "concat (map group_insights (byDomain ?fin))
           = take (group_total ?G - ?e) (concat (map group_insights ?G))"
    using byDomain_trimmed [of xs] by blast
  have picks: "length (keyHighlights ?ini) + length (majorSpending ?ini) + length (crossDomain ?ini) \<le> 11"
    using initialSections_lengths [of xs] by simp
  have "group_total (byDomain ?fin) = group_total ?G - ?e"
    by (subst group_total_concat, subst cc) (simp add: group_total_concat)
  then have total: "section_total ?fin = min (section_total ?ini) MAX_TOTAL"
    using picks by (simp add: section_total_def pick_groups_unchanged MAX_TOTAL_def)
  have keys: "map group_key (byDomain ?fin) = take (length (byDomain ?fin)) (map group_key ?G)"
    using len nth by (intro nth_equalityI) simp_all
  have "[] \<notin> set (map group_insights (byDomain ?fin))"
    using nth by (metis (no_types, lifting) in_set_conv_nth length_map nth_map)
  with total cc keys show ?thesis by simp
qed
text \<open>
  Claim C1 as stated fails: \<^verbatim>\<open>pickTop\<close> never reads \<open>selected\<close>, so an insight of the
  major-spending family or of a cross-domain family that is among the key highlights is
  returned in both groups.
\<close>

theorem overlap_counterexample:
  "ids_of (keyHighlights (buildAllDomainSections overlap_example))
     \<inter> ids_of (majorSpending (buildAllDomainSections overlap_example)) = {1}
   \<and> ids_of (keyHighlights (buildAllDomainSections overlap_example))
     \<inter> ids_of (crossDomain (buildAllDomainSections overlap_example)) = {2}"
  by code_simp

text \<open>
  The truncation at work: 21 selected insights, 15 returned, the last three domain groups
  dropped.
\<close>

lemma full_example_sections:
  "section_total (initialSections full_example) = 21
   \<and> section_total (buildAllDomainSections full_example) = 15
   \<and> map group_key (byDomain (buildAllDomainSections full_example)) = [''spending_patterns'', ''spending_trends'']
   \<and> map insight_id (concat (map group_insights (byDomain (buildAllDomainSections full_example)))) = [12, 13, 14, 15]"
  by code_simp

text \<open>
  Claim C1, amended. For every list of merged insights, no id of a returned domain group
  appears in \<open>keyHighlights\<close>, \<open>majorSpending\<close>, \<open>crossDomain\<close> or another domain group:
  the domain loop is the one place that filters on \<open>selected\<close>. When the ids of the
  list are distinct, \<open>majorSpending\<close> and \<open>crossDomain\<close> share no id either, their
  families being disjoint. Nothing is said of \<open>keyHighlights\<close> against those two groups.
\<close>

theorem byDomain_ids_disjoint:
  "(\<forall>j < length (byDomain (buildAllDomainSections xs)).
      ids_of (group_insights (byDomain (buildAllDomainSections xs) ! j))
        \<inter> (ids_of (keyHighlights (buildAllDomainSections xs))
            \<union> ids_of (majorSpending (buildAllDomainSections xs))
            \<union> ids_of (crossDomain (buildAllDomainSections xs))) = {}
      \<and> (\<forall>i < j. ids_of (group_insights (byDomain (buildAllDomainSections xs) ! i))
            \<inter> ids_of (group_insights (byDomain (buildAllDomainSections xs) ! j)) = {}))
   \<and> (distinct (map insight_id xs) \<longrightarrow>
        ids_of (majorSpending (buildAllDomainSections xs))
          \<inter> ids_of (crossDomain (buildAllDomainSections xs)) = {})"
proof -
  let ?ini = "initialSections xs"
  let ?fin = "buildAllDomainSections xs"
  let ?G = "byDomain ?ini"
  let ?R = "byDomain ?fin"
  let ?sel = "ids_of (keyHighlights ?ini) \<union> ids_of (majorSpending ?ini) \<union> ids_of (crossDomain ?ini)"
  have fr: "fresh_groups ?sel ?G" using initialSections_byDomain [of xs] by blast
  have len: "length ?R \<le> length ?G" using byDomain_trimmed [of xs] by blast
  have sub: "ids_of (group_insights (?R ! j)) \<subseteq> ids_of (group_insights (?G ! j))"
    if "j < length ?R" for j
  proof -
    from byDomain_trimmed [of xs] that obtain n where
      "group_insights (?R ! j) = take n (group_insights (?G ! j))" by blast
    then show ?thesis using set_take_subset [of n "group_insights (?G ! j)"]
      by (auto simp: ids_of_def)
  qed
  have groups: "ids_of (group_insights (?R ! j)) \<inter> ?sel = {}
      \<and> (\<forall>i < j. ids_of (group_insights (?R ! i)) \<inter> ids_of (group_insights (?R ! j)) = {})"
    if j: "j < length ?R" for j
  proof -
    from j len have jG: "j < length ?G" by simp
    note f = fresh_groups_nth [OF fr jG]
    have "ids_of (group_insights (?R ! j)) \<inter> ?sel = {}"
      using f sub [OF j] by blast
    moreover have "ids_of (group_insights (?R ! i)) \<inter> ids_of (group_insights (?R ! j)) = {}"
      if "i < j" for i
    proof -
      from that j have "i < length ?R" by simp
      from sub [OF this] sub [OF j] f that show ?thesis by blast
    qed
    ultimately show ?thesis by blast
  qed
  have fams: "ids_of (majorSpending ?ini) \<inter> ids_of (crossDomain ?ini) = {}"
    if d: "distinct (map insight_id xs)"
  proof -
    have ms: "set (majorSpending ?ini) \<subseteq> {i \<in> set xs. isMajorSpending i}"
      using set_take_subset [of 3 "array_sort (SortCompare byPriorityRank) (filter isMajorSpending xs)"]
      by (auto simp: initialSections_def Let_def pickTop_fst set_array_sort)
    have cd: "set (crossDomain ?ini) \<subseteq> {i \<in> set xs. isCrossDomain i}"
      using set_take_subset [of 3 "array_sort (SortCompare byPriorityRank) (filter isCrossDomain xs)"]
      by (auto simp: initialSections_def Let_def pickTop_fst set_array_sort)
    have inj: "inj_on insight_id (set xs)" using d by (simp add: distinct_map)
    have "\<not> (isMajorSpending i \<and> isCrossDomain i)" for i
      by (auto simp: isMajorSpending_def isCrossDomain_def crossDomainFamilies_def)
    then show ?thesis using ms cd inj unfolding ids_of_def inj_on_def by blast
  qed
  show ?thesis using groups fams by (simp add: pick_groups_unchanged)
qed

text \<open>The amended claim C1 at the twenty-one insights, which have two returned domain groups.\<close>

theorem byDomain_ids_disjoint_witness:
  "length (byDomain (buildAllDomainSections full_example)) = 2
   \<and> ids_of (group_insights (byDomain (buildAllDomainSections full_example) ! 1))
        \<inter> (ids_of (keyHighlights (buildAllDomainSections full_example))
            \<union> ids_of (majorSpending (buildAllDomainSections full_example))
            \<union> ids_of (crossDomain (buildAllDomainSections full_example))) = {}
   \<and> ids_of (group_insights (byDomain (buildAllDomainSections full_example) ! 0))
        \<inter> ids_of (group_insights (byDomain (buildAllDomainSections full_example) ! 1)) = {}
   \<and> distinct (map insight_id full_example)
   \<and> ids_of (majorSpending (buildAllDomainSections full_example))
        \<inter> ids_of (crossDomain (buildAllDomainSections full_example)) = {}"
proof -
  have len: "length (byDomain (buildAllDomainSections full_example)) = 2" by code_simp
  have d: "distinct (map insight_id full_example)" by code_simp
  have j: "(1::nat) < length (byDomain (buildAllDomainSections full_example))"
    and i: "(0::nat) < 1" using len by simp_all
  from byDomain_ids_disjoint [of full_example] j i d len show ?thesis by blast
qed


subsection \<open>The order of the section allocator\<close>

text \<open>
  Claim C2 as stated fails: \<^verbatim>\<open>buildAllDomainSections\<close> sorts by its own \<^verbatim>\<open>priorityRank\<close> and
  never calls the Comparator of \<^verbatim>\<open>Dashboard.jsx\<close>. On the merged insights of \<open>rank_tree\<close>
  the Comparator puts the five insights of quick score 5 first; the allocator puts the
  high-priority insight first and leaves the fifth of the others out.
\<close>

theorem keyHighlights_comparator_counterexample:
  "map insight_id (take 5 (array_sort (SortCompare compareInsights) (mergeSimilarInsights rank_tree)))
     = [1, 2, 3, 4, 5]
   \<and> map insight_id (keyHighlights (buildAllDomainSections (mergeSimilarInsights rank_tree)))
     = [6, 1, 2, 3, 4]
   \<and> keyHighlights (buildAllDomainSections (mergeSimilarInsights rank_tree))
        \<noteq> take 5 (array_sort (SortCompare compareInsights) (mergeSimilarInsights rank_tree))"
proof -
  have a: "map insight_id
      (take 5 (array_sort (SortCompare compareInsights) (mergeSimilarInsights rank_tree)))
      = [1, 2, 3, 4, 5]"
    by code_simp
  have b: "map insight_id (keyHighlights (buildAllDomainSections (mergeSimilarInsights rank_tree)))
      = [6, 1, 2, 3, 4]"
    by code_simp
  from a b have "keyHighlights (buildAllDomainSections (mergeSimilarInsights rank_tree))
        \<noteq> take 5 (array_sort (SortCompare compareInsights) (mergeSimilarInsights rank_tree))"
    by auto
  with a b show ?thesis by simp
qed

lemma top_of_sorted:
  fixes f :: "'a \<Rightarrow> int"
  shows "\<exists>rest. mset (take n (sort_key f xs) @ rest) = mset xs
     \<and> (\<forall>y \<in> set (take n (sort_key f xs)). \<forall>x \<in> set rest. f y \<le> f x)"
proof -
  let ?S = "sort_key f xs"
  have "sorted (map f (take n ?S @ drop n ?S))" by simp
  then have "\<forall>y \<in> set (take n ?S). \<forall>x \<in> set (drop n ?S). f y \<le> f x"
    unfolding map_append sorted_append by auto
  moreover have "mset (take n ?S @ drop n ?S) = mset xs" by simp
  ultimately show ?thesis by blast
qed

text \<open>
  Claim C2, amended. For every list of merged insights in which no priority names a member
  of \<^verbatim>\<open>Object.prototype\<close>, the priority rank that the allocator looks up is 0 for \<^verbatim>\<open>high\<close>,
  1 for \<^verbatim>\<open>medium\<close>, 2 for \<^verbatim>\<open>low\<close> and 3 for a missing or any other priority (\<open>spec_rank\<close>);
  \<open>keyHighlights\<close> is the first five insights of the list sorted stably by ascending
  priority rank alone (insights of equal rank keep the order of the list), and
  \<open>majorSpending\<close> and \<open>crossDomain\<close> are the first three of their family filters sorted
  the same way. So \<open>keyHighlights\<close> is sorted by rank, has five insights when the list
  has that many, and no insight left out has a smaller rank than one taken. Quick score
  and recency play no part.
\<close>

theorem keyHighlights_by_priority_rank:
  assumes "\<forall>i \<in> set xs. plain_priority (priority i)"
  shows "(\<forall>i \<in> set xs. priorityRank i = Num (spec_rank (priority i)))
   \<and> keyHighlights (buildAllDomainSections xs)
       = take 5 (sort_key (\<lambda>i. spec_rank (priority i)) xs)
   \<and> majorSpending (buildAllDomainSections xs)
       = take 3 (sort_key (\<lambda>i. spec_rank (priority i)) (filter isMajorSpending xs))
   \<and> crossDomain (buildAllDomainSections xs)
       = take 3 (sort_key (\<lambda>i. spec_rank (priority i)) (filter isCrossDomain xs))
   \<and> sorted (map (\<lambda>i. spec_rank (priority i)) (keyHighlights (buildAllDomainSections xs)))
   \<and> length (keyHighlights (buildAllDomainSections xs)) = min 5 (length xs)
   \<and> (\<exists>rest. mset (keyHighlights (buildAllDomainSections xs) @ rest) = mset xs
        \<and> (\<forall>y \<in> set (keyHighlights (buildAllDomainSections xs)). \<forall>x \<in> set rest.
              spec_rank (priority y) \<le> spec_rank (priority x)))"
proof -
  let ?r = "\<lambda>i. spec_rank (priority i)"
  have pr: "\<forall>i \<in> set xs. priorityRank i = Num (spec_rank (priority i))"
    using assms by (simp add: priorityRank_def rank_plain)
  have srt: "array_sort (SortCompare byPriorityRank) (filter P xs) = sort_key ?r (filter P xs)"
    for P
    by (rule array_sort_byPriorityRank) (simp add: assms)
  have kh: "keyHighlights (buildAllDomainSections xs) = take 5 (sort_key ?r xs)"
    using srt [of "\<lambda>i. True"]
    by (simp add: pick_groups_unchanged initialSections_def Let_def pickTop_fst)
  have ms: "majorSpending (buildAllDomainSections xs)
       = take 3 (sort_key ?r (filter isMajorSpending xs))"
    by (simp add: pick_groups_unchanged initialSections_def Let_def pickTop_fst srt)
  have cd: "crossDomain (buildAllDomainSections xs)
       = take 3 (sort_key ?r (filter isCrossDomain xs))"
    by (simp add: pick_groups_unchanged initialSections_def Let_def pickTop_fst srt)
  have so: "sorted (map ?r (take 5 (sort_key ?r xs)))"
    by (simp add: take_map [symmetric] sorted_wrt_take)
  have le: "length (take 5 (sort_key ?r xs)) = min 5 (length xs)"
    by simp
  from pr kh ms cd so le top_of_sorted [of 5 ?r xs] show ?thesis
    by (simp only: simp_thms)
qed

text \<open>The amended claim C2 at the merged insights of \<open>rank_tree\<close>.\<close>

theorem keyHighlights_by_priority_rank_witness:
  "map (\<lambda>i. plain_priority (priority i)) (mergeSimilarInsights rank_tree)
     = [True, True, True, True, True, True]
   \<and> map insight_id (keyHighlights (buildAllDomainSections (mergeSimilarInsights rank_tree)))
     = [6, 1, 2, 3, 4]
   \<and> map (\<lambda>i. spec_rank (priority i))
        (keyHighlights (buildAllDomainSections (mergeSimilarInsights rank_tree)))
     = [0, 2, 2, 2, 2]
   \<and> keyHighlights (buildAllDomainSections (mergeSimilarInsights rank_tree))
     = take 5 (sort_key (\<lambda>i. spec_rank (priority i)) (mergeSimilarInsights rank_tree))
   \<and> sorted (map (\<lambda>i. spec_rank (priority i))
        (keyHighlights (buildAllDomainSections (mergeSimilarInsights rank_tree))))
   \<and> (\<exists>rest. mset (keyHighlights (buildAllDomainSections (mergeSimilarInsights rank_tree)) @ rest)
          = mset (mergeSimilarInsights rank_tree)
        \<and> (\<forall>y \<in> set (keyHighlights (buildAllDomainSections (mergeSimilarInsights rank_tree))).
             \<forall>x \<in> set rest. spec_rank (priority y) \<le> spec_rank (priority x)))"
proof -
  let ?xs = "mergeSimilarInsights rank_tree"
  have p: "map (\<lambda>i. plain_priority (priority i)) ?xs = [True, True, True, True, True, True]"
    by code_simp
  have a: "map insight_id (keyHighlights (buildAllDomainSections ?xs)) = [6, 1, 2, 3, 4]"
    by code_simp
  have b: "map (\<lambda>i. spec_rank (priority i)) (keyHighlights (buildAllDomainSections ?xs))
      = [0, 2, 2, 2, 2]"
    by code_simp
  have "list_all (\<lambda>b. b) (map (\<lambda>i. plain_priority (priority i)) ?xs)"
    by (simp only: p) simp
  then have h: "\<forall>i \<in> set ?xs. plain_priority (priority i)"
    by (simp add: list_all_iff)
  note inst = keyHighlights_by_priority_rank [OF h]
  note c = inst [THEN conjunct2, THEN conjunct1]
  note d = inst [THEN conjunct2, THEN conjunct2, THEN conjunct2, THEN conjunct2, THEN conjunct1]
  note e = inst [THEN conjunct2, THEN conjunct2, THEN conjunct2, THEN conjunct2, THEN conjunct2,
    THEN conjunct2]
  from p a b c d e show ?thesis by (intro conjI)
qed


subsection \<open>The merger\<close>

lemma annotate_fields:
  "map_key (annotate d f i) = merge_key (family_key f) (title i)"
  "priority (annotate d f i) = priority i"
  "familyKey (annotate d f i) = Some (family_key f)"
  "title (annotate d f i) = title i"
  by (simp_all add: map_key_def annotate_def)

lemma merge_insight_upsert: "merge_insight d f i m = upsert (annotate d f i) m"
  by (simp add: merge_insight_def upsert_def annotate_fields Let_def split: option.split)

lemma merge_family_upsert:
  "merge_family d f m = fold upsert (map (annotate d f) (family_insights f)) m"
proof -
  have "merge_insight d f = upsert \<circ> annotate d f"
    by (rule ext)+ (simp add: merge_insight_upsert)
  then show ?thesis by (simp add: merge_family_def fold_map)
qed

lemma merge_domain_upsert:
  "merge_domain d m =
     fold upsert (concat (map (\<lambda>f. map (annotate d f) (family_insights f)) (families d))) m"
proof -
  have "fold (merge_family d) fs m
      = fold upsert (concat (map (\<lambda>f. map (annotate d f) (family_insights f)) fs)) m" for fs
    by (induction fs arbitrary: m) (simp_all add: merge_family_upsert)
  then show ?thesis by (simp add: merge_domain_def)
qed

lemma merge_traversal: "fold merge_domain ds m = fold upsert (traversal ds) m"
  by (induction ds arbitrary: m) (simp_all add: traversal_def merge_domain_upsert)

lemma kept_entry_old:
  assumes "kept_entry T k v" and "k = map_key a \<Longrightarrow> spec_rank (priority v) \<le> spec_rank (priority a)"
  shows "kept_entry (T @ [a]) k v"
proof -
  from assms(1) obtain n where n: "map_key v = k" "n < length T" "T ! n = v"
    "\<forall>j < length T. map_key (T ! j) = k \<longrightarrow> spec_rank (priority v) \<le> spec_rank (priority (T ! j))"
    "\<forall>j < n. map_key (T ! j) = k \<longrightarrow> spec_rank (priority v) < spec_rank (priority (T ! j))"
    unfolding kept_entry_def by blast
  let ?T = "T @ [a]"
  have "\<forall>j < length ?T. map_key (?T ! j) = k \<longrightarrow> spec_rank (priority v) \<le> spec_rank (priority (?T ! j))"
  proof (intro allI impI)
    fix j assume "j < length ?T" "map_key (?T ! j) = k"
    then show "spec_rank (priority v) \<le> spec_rank (priority (?T ! j))"
      using n(4) assms(2) by (cases "j < length T") (auto simp: nth_append)
  qed
  moreover have "\<forall>j < n. map_key (?T ! j) = k \<longrightarrow> spec_rank (priority v) < spec_rank (priority (?T ! j))"
    using n(2,5) by (simp add: nth_append)
  moreover have "?T ! n = v" using n(2,3) by (simp add: nth_append)
  moreover have "n < length ?T" using n(2) by simp
  ultimately show ?thesis unfolding kept_entry_def using n(1) by blast
qed

lemma kept_entry_new:
  assumes "\<And>j. j < length T \<Longrightarrow> map_key (T ! j) = map_key a \<Longrightarrow>
            spec_rank (priority a) < spec_rank (priority (T ! j))"
  shows "kept_entry (T @ [a]) (map_key a) a"
proof -
  let ?T = "T @ [a]"
  have "\<forall>j < length ?T. map_key (?T ! j) = map_key a \<longrightarrow>
          spec_rank (priority a) \<le> spec_rank (priority (?T ! j))"
  proof (intro allI impI)
    fix j assume "j < length ?T" "map_key (?T ! j) = map_key a"
    then show "spec_rank (priority a) \<le> spec_rank (priority (?T ! j))"
      using assms [of j] by (cases "j < length T") (auto simp: nth_append)
  qed
  moreover have "\<forall>j < length T. map_key (?T ! j) = map_key a \<longrightarrow>
          spec_rank (priority a) < spec_rank (priority (?T ! j))"
    using assms by (simp add: nth_append)
  moreover have "?T ! length T = a" "length T < length ?T" by simp_all
  ultimately show ?thesis unfolding kept_entry_def by blast
qed

lemma merged_ok_update:
  assumes ok: "merged_ok T m"
    and less: "\<And>j. j < length T \<Longrightarrow> map_key (T ! j) = map_key a \<Longrightarrow>
            spec_rank (priority a) < spec_rank (priority (T ! j))"
  shows "merged_ok (T @ [a]) (AList.update (map_key a) a m)"
proof -
  from ok have dist: "distinct (map fst m)"
    and vals: "\<And>k v. map_of m k = Some v \<Longrightarrow> kept_entry T k v"
    and keys: "\<And>x. x \<in> set T \<Longrightarrow> map_of m (map_key x) \<noteq> None"
    unfolding merged_ok_def by blast+
  have "distinct (map fst (AList.update (map_key a) a m))"
    using dist by (rule distinct_update)
  moreover have "\<forall>k v. map_of (AList.update (map_key a) a m) k = Some v \<longrightarrow>
      kept_entry (T @ [a]) k v"
  proof (intro allI impI)
    fix k v assume "map_of (AList.update (map_key a) a m) k = Some v"
    then consider "k = map_key a" "v = a" | "k \<noteq> map_key a" "map_of m k = Some v"
      by (auto simp: update_conv' split: if_splits)
    then show "kept_entry (T @ [a]) k v"
    proof cases
      case 1
      then show ?thesis using kept_entry_new [OF less] by simp
    next
      case 2
      then show ?thesis using kept_entry_old [OF vals] by simp
    qed
  qed
  moreover have "\<forall>x \<in> set (T @ [a]). map_of (AList.update (map_key a) a m) (map_key x) \<noteq> None"
    using keys by (auto simp: update_conv')
  ultimately show ?thesis unfolding merged_ok_def by blast
qed

lemma js_less_plain:
  assumes "plain_priority p" "plain_priority q"
  shows "js_less (rank p) (rank q) \<longleftrightarrow> spec_rank p < spec_rank q"
  using assms by (simp add: rank_plain js_less_def)

lemma merged_ok_step:
  assumes ok: "merged_ok T m"
    and plain: "\<forall>x \<in> set T. plain_priority (priority x)" "plain_priority (priority a)"
  shows "merged_ok (T @ [a]) (upsert a m)"
proof -
  from ok have dist: "distinct (map fst m)"
    and vals: "\<And>k v. map_of m k = Some v \<Longrightarrow> kept_entry T k v"
    and keys: "\<And>x. x \<in> set T \<Longrightarrow> map_of m (map_key x) \<noteq> None"
    unfolding merged_ok_def by blast+
  show ?thesis
  proof (cases "map_of m (map_key a)")
    case None
    have "map_key (T ! j) \<noteq> map_key a" if "j < length T" for j
      using keys [of "T ! j"] that None by auto
    then have "merged_ok (T @ [a]) (AList.update (map_key a) a m)"
      by (intro merged_ok_update [OF ok]) simp
    with None show ?thesis by (simp add: upsert_def)
  next
    case (Some old)
    from vals [OF Some] have "old \<in> set T" unfolding kept_entry_def by (auto intro: nth_mem)
    with plain have less_iff: "js_less (rank (priority a)) (rank (priority old))
        \<longleftrightarrow> spec_rank (priority a) < spec_rank (priority old)"
      by (simp add: js_less_plain)
    show ?thesis
    proof (cases "spec_rank (priority a) < spec_rank (priority old)")
      case True
      have "spec_rank (priority a) < spec_rank (priority (T ! j))"
        if "j < length T" "map_key (T ! j) = map_key a" for j
        using vals [OF Some] that True unfolding kept_entry_def by fastforce
      then have "merged_ok (T @ [a]) (AList.update (map_key a) a m)"
        by (intro merged_ok_update [OF ok]) simp
      with Some True less_iff show ?thesis by (simp add: upsert_def)
    next
      case False
      have "\<forall>k v. map_of m k = Some v \<longrightarrow> kept_entry (T @ [a]) k v"
      proof (intro allI impI)
        fix k v assume mv: "map_of m k = Some v"
        have "spec_rank (priority v) \<le> spec_rank (priority a)" if "k = map_key a"
          using that mv Some False by simp
        with vals [OF mv] show "kept_entry (T @ [a]) k v" by (rule kept_entry_old)
      qed
      moreover have "\<forall>x \<in> set (T @ [a]). map_of m (map_key x) \<noteq> None"
        using keys Some by auto
      ultimately have "merged_ok (T @ [a]) m" using dist unfolding merged_ok_def by blast
      with Some False less_iff show ?thesis by (simp add: upsert_def)
    qed
  qed
qed

lemma merged_ok_fold:
  "\<forall>x \<in> set T. plain_priority (priority x) \<Longrightarrow> merged_ok T (fold upsert T [])"
proof (induction T rule: rev_induct)
  case Nil
  then show ?case by (simp add: merged_ok_def)
next
  case (snoc a T)
  then have "merged_ok T (fold upsert T [])" by simp
  from merged_ok_step [OF this, of a] snoc.prems show ?case by simp
qed

lemma rank_table:
  "rank (Some ''high'') = Num 0" "rank (Some ''medium'') = Num 1" "rank (Some ''low'') = Num 2"
  "rank None = Num 3"
  "p \<notin> {''high'', ''medium'', ''low''} \<Longrightarrow> p \<notin> set object_prototype_names \<Longrightarrow>
     rank (Some p) = Num 3"
  "p \<in> set object_prototype_names \<Longrightarrow> rank (Some p) = Member p"
  by (auto simp: rank_def lookup_or_def object_prototype_names_def)

lemma map_key_dedup: "dedup_key x = dedup_key y \<Longrightarrow> map_key x = map_key y"
  by (simp add: dedup_key_def map_key_def)

lemma merge_key_inj:
  assumes "merge_key fk t = merge_key fk' t'" "CHR ''|'' \<notin> set fk" "CHR ''|'' \<notin> set fk'"
  shows "fk = fk' \<and> t = t'"
proof -
  have tw: "takeWhile (\<lambda>c. c \<noteq> CHR ''|'') (k @ CHR ''|'' # s) = k" if "CHR ''|'' \<notin> set k" for k s
    using that by (simp add: takeWhile_tail) (metis takeWhile_eq_all_conv)
  from assms(1) have "fk @ CHR ''|'' # t = fk' @ CHR ''|'' # t'" by (simp add: merge_key_def)
  then have "takeWhile (\<lambda>c. c \<noteq> CHR ''|'') (fk @ CHR ''|'' # t)
      = takeWhile (\<lambda>c. c \<noteq> CHR ''|'') (fk' @ CHR ''|'' # t')" by simp
  with assms(2,3) have "fk = fk'" by (simp add: tw)
  with \<open>fk @ CHR ''|'' # t = fk' @ CHR ''|'' # t'\<close> show ?thesis by simp
qed

lemma traversal_origin:
  "x \<in> set (traversal ds) \<Longrightarrow>
     \<exists>d \<in> set ds. \<exists>f \<in> set (families d). familyKey x = Some (family_key f)"
proof -
  assume "x \<in> set (traversal ds)"
  then obtain d f i where "d \<in> set ds" "f \<in> set (families d)" "x = annotate d f i"
    by (auto simp: traversal_def)
  then show ?thesis using annotate_fields(3) by blast
qed

lemma distinct_map_inner: "distinct (map (\<lambda>x. g (h x)) xs) \<Longrightarrow> distinct (map h xs)"
  by (induction xs) auto

lemma merged_entries:
  assumes "merged_ok T m" "v \<in> set (map snd m)"
  shows "kept_entry T (map_key v) v"
proof -
  from assms(2) obtain k where "(k, v) \<in> set m" by auto
  with assms(1) have "map_of m k = Some v" by (simp add: merged_ok_def)
  with assms(1) have "kept_entry T k v" by (simp add: merged_ok_def)
  then show ?thesis by (simp add: kept_entry_def)
qed

lemma merged_keys:
  assumes "merged_ok T m"
  shows "distinct (map map_key (map snd m))"
proof -
  have "fst e = map_key (snd e)" if "e \<in> set m" for e
  proof -
    from that assms have "map_of m (fst e) = Some (snd e)" by (simp add: merged_ok_def)
    with assms have "kept_entry T (fst e) (snd e)" unfolding merged_ok_def by blast
    then show ?thesis by (simp add: kept_entry_def)
  qed
  then have "map fst m = map map_key (map snd m)" by simp
  with assms show ?thesis by (simp add: merged_ok_def)
qed

text \<open>
  For every insight tree, no two insights of the merger's output share the pair of family
  key and title: the keys of the map are distinct and each value carries its key.
\<close>

lemma keyed_upsert:
  assumes "distinct (map fst m)" "\<forall>e \<in> set m. map_key (snd e) = fst e"
  shows "distinct (map fst (upsert a m)) \<and> (\<forall>e \<in> set (upsert a m). map_key (snd e) = fst e)"
proof -
  let ?u = "AList.update (map_key a) a m"
  have d: "distinct (map fst ?u)" using assms(1) by (rule distinct_update)
  have k: "\<forall>e \<in> set ?u. map_key (snd e) = fst e"
  proof
    fix e assume e: "e \<in> set ?u"
    with d have "map_of ?u (fst e) = Some (snd e)" by simp
    then have "fst e = map_key a \<and> snd e = a \<or> map_of m (fst e) = Some (snd e)"
      by (auto simp: update_conv' split: if_splits)
    then show "map_key (snd e) = fst e"
    proof
      assume "fst e = map_key a \<and> snd e = a"
      then show ?thesis by simp
    next
      assume "map_of m (fst e) = Some (snd e)"
      then have "(fst e, snd e) \<in> set m" by (rule map_of_SomeD)
      with assms(2) show ?thesis by fastforce
    qed
  qed
  have "upsert a m = m \<or> upsert a m = ?u"
    by (simp add: upsert_def split: option.split)
  with assms d k show ?thesis by auto
qed

lemma keyed_fold:
  "distinct (map fst (fold upsert T [])) \<and> (\<forall>e \<in> set (fold upsert T []). map_key (snd e) = fst e)"
proof (induction T rule: rev_induct)
  case Nil
  then show ?case by simp
next
  case (snoc a T)
  then show ?case using keyed_upsert [of "fold upsert T []" a] by simp
qed

lemma mergeSimilarInsights_distinct: "distinct (map dedup_key (mergeSimilarInsights ds))"
proof -
  let ?m = "fold upsert (traversal ds) []"
  have out: "mergeSimilarInsights ds = map snd ?m"
    by (simp add: mergeSimilarInsights_def merge_traversal)
  from keyed_fold [of "traversal ds"] have "map fst ?m = map map_key (map snd ?m)" by simp
  with keyed_fold [of "traversal ds"] have "distinct (map (\<lambda>x. map_key x) (map snd ?m))" by simp
  moreover have "map_key = (\<lambda>x. merge_key (case fst (dedup_key x) of None \<Rightarrow> [] | Some k \<Rightarrow> k)
      (snd (dedup_key x)))"
    by (rule ext) (simp add: map_key_def dedup_key_def)
  ultimately have "distinct (map (\<lambda>x. (\<lambda>p. merge_key (case fst p of None \<Rightarrow> [] | Some k \<Rightarrow> k) (snd p))
      (dedup_key x)) (map snd ?m))" by simp
  then have "distinct (map dedup_key (map snd ?m))" by (rule distinct_map_inner)
  then show ?thesis by (simp only: out)
qed

text \<open>
  Where no priority of the tree names a member of \<^verbatim>\<open>Object.prototype\<close>, the merger does what
  the specification says. Every insight of the output is an insight of the traversal
  (domain, then family, then insight) whose priority rank is the least among the insights
  sharing its pair of family key and title, and every insight sharing the pair that the
  traversal visits before it has a strictly greater rank: of the colliders with the least
  rank the first one visited is kept. When moreover no family key contains the separator
  \<^verbatim>\<open>|\<close> of the map key, every pair of the traversal has its instance in the output.
\<close>

lemma mergeSimilarInsights_plain_priorities:
  assumes plain: "\<forall>x \<in> set (traversal ds). plain_priority (priority x)"
  shows "(\<forall>v \<in> set (mergeSimilarInsights ds). \<exists>n < length (traversal ds).
         traversal ds ! n = v
         \<and> (\<forall>j < length (traversal ds). dedup_key (traversal ds ! j) = dedup_key v \<longrightarrow>
               spec_rank (priority v) \<le> spec_rank (priority (traversal ds ! j)))
         \<and> (\<forall>j < n. dedup_key (traversal ds ! j) = dedup_key v \<longrightarrow>
               spec_rank (priority v) < spec_rank (priority (traversal ds ! j))))
   \<and> ((\<forall>d \<in> set ds. \<forall>f \<in> set (families d). CHR ''|'' \<notin> set (family_key f)) \<longrightarrow>
         dedup_key ` set (mergeSimilarInsights ds) = dedup_key ` set (traversal ds))"
proof -
  let ?T = "traversal ds"
  let ?m = "fold upsert ?T []"
  have out: "mergeSimilarInsights ds = map snd ?m"
    by (simp add: mergeSimilarInsights_def merge_traversal)
  have ok: "merged_ok ?T ?m" using plain by (rule merged_ok_fold)
  have two: "\<exists>n < length ?T. ?T ! n = v
         \<and> (\<forall>j < length ?T. dedup_key (?T ! j) = dedup_key v \<longrightarrow>
               spec_rank (priority v) \<le> spec_rank (priority (?T ! j)))
         \<and> (\<forall>j < n. dedup_key (?T ! j) = dedup_key v \<longrightarrow>
               spec_rank (priority v) < spec_rank (priority (?T ! j)))"
    if "v \<in> set (map snd ?m)" for v
  proof -
    from merged_entries [OF ok that] obtain n where n: "n < length ?T" "?T ! n = v"
      "\<forall>j < length ?T. map_key (?T ! j) = map_key v \<longrightarrow>
         spec_rank (priority v) \<le> spec_rank (priority (?T ! j))"
      "\<forall>j < n. map_key (?T ! j) = map_key v \<longrightarrow>
         spec_rank (priority v) < spec_rank (priority (?T ! j))"
      unfolding kept_entry_def by blast
    from n(3,4) have
      "\<forall>j < length ?T. dedup_key (?T ! j) = dedup_key v \<longrightarrow>
         spec_rank (priority v) \<le> spec_rank (priority (?T ! j))"
      "\<forall>j < n. dedup_key (?T ! j) = dedup_key v \<longrightarrow>
         spec_rank (priority v) < spec_rank (priority (?T ! j))"
      using map_key_dedup by blast+
    with n(1,2) show ?thesis by blast
  qed
  have three: "dedup_key ` set (map snd ?m) = dedup_key ` set ?T"
    if bar: "\<forall>d \<in> set ds. \<forall>f \<in> set (families d). CHR ''|'' \<notin> set (family_key f)"
  proof
    show "dedup_key ` set (map snd ?m) \<subseteq> dedup_key ` set ?T"
    proof
      fix p assume "p \<in> dedup_key ` set (map snd ?m)"
      then obtain v where v: "v \<in> set (map snd ?m)" "p = dedup_key v" by blast
      from two [OF v(1)] have "v \<in> set ?T" by (metis nth_mem)
      with v(2) show "p \<in> dedup_key ` set ?T" by blast
    qed
  next
    show "dedup_key ` set ?T \<subseteq> dedup_key ` set (map snd ?m)"
    proof
      fix p assume "p \<in> dedup_key ` set ?T"
      then obtain x where x: "x \<in> set ?T" "p = dedup_key x" by blast
      from ok x(1) obtain v where mv: "map_of ?m (map_key x) = Some v"
        unfolding merged_ok_def by blast
      then have vin: "v \<in> set (map snd ?m)" by (metis map_of_SomeD image_eqI set_map snd_conv)
      from ok mv have ke: "kept_entry ?T (map_key x) v" unfolding merged_ok_def by blast
      then have keq: "map_key v = map_key x" and "v \<in> set ?T"
        unfolding kept_entry_def by (auto intro: nth_mem)
      from traversal_origin [OF x(1)] bar obtain fk where
        fk: "familyKey x = Some fk" "CHR ''|'' \<notin> set fk" by blast
      from traversal_origin [OF \<open>v \<in> set ?T\<close>] bar obtain fk' where
        fk': "familyKey v = Some fk'" "CHR ''|'' \<notin> set fk'" by blast
      from keq fk(1) fk'(1) have "merge_key fk' (title v) = merge_key fk (title x)"
        by (simp add: map_key_def)
      from merge_key_inj [OF this fk'(2) fk(2)] fk(1) fk'(1)
      have "dedup_key v = dedup_key x" by (simp add: dedup_key_def)
      with vin x(2) show "p \<in> dedup_key ` set (map snd ?m)" by (metis image_eqI)
    qed
  qed
  from two have two': "\<forall>v \<in> set (map snd ?m). \<exists>n < length ?T. ?T ! n = v
         \<and> (\<forall>j < length ?T. dedup_key (?T ! j) = dedup_key v \<longrightarrow>
               spec_rank (priority v) \<le> spec_rank (priority (?T ! j)))
         \<and> (\<forall>j < n. dedup_key (?T ! j) = dedup_key v \<longrightarrow>
               spec_rank (priority v) < spec_rank (priority (?T ! j)))"
    by (intro ballI)
  from three have three': "(\<forall>d \<in> set ds. \<forall>f \<in> set (families d). CHR ''|'' \<notin> set (family_key f)) \<longrightarrow>
         dedup_key ` set (map snd ?m) = dedup_key ` set ?T"
    by (intro impI)
  show ?thesis unfolding out by (intro conjI two' three')
qed

text \<open>The merger on \<open>merge_example\<close>: the first of the two insights of high priority is kept.\<close>

lemma mergeSimilarInsights_example:
  "map insight_id (traversal merge_example) = [1, 2, 3, 4, 5, 6]"
  "map insight_id (mergeSimilarInsights merge_example) = [2, 4]"
  by code_simp+

text \<open>
  Claim C6 fails on the code. In \<open>inherited_priority_tree\<close> two insights share family key
  and title; the first has the priority \<^verbatim>\<open>constructor\<close>, an unknown priority of rank 3 by
  the claim, the second the priority \<^verbatim>\<open>high\<close> of rank 0, so the claim keeps the second. The
  lookup of the code finds the inherited member for \<^verbatim>\<open>constructor\<close>, \<^verbatim>\<open>0 < rank(..)\<close> is false
  and the merger keeps the first: the kept instance has a collider of smaller rank. In \<open>colliding_key_tree\<close> the pairs \<open>(a|b, c)\<close> and
  \<open>(a, b|c)\<close> give one map key: the two colliders of the first pair keep no instance in
  the output.
\<close>

theorem mergeSimilarInsights_inherited_priority:
  "map (\<lambda>i. (insight_id i, priority i)) (traversal inherited_priority_tree)
     = [(1, Some ''constructor''), (2, Some ''high'')]
   \<and> dedup_key (traversal inherited_priority_tree ! 0) = dedup_key (traversal inherited_priority_tree ! 1)
   \<and> spec_rank (Some ''high'') = 0 \<and> spec_rank (Some ''constructor'') = 3
   \<and> rank (Some ''high'') = Num 0 \<and> rank (Some ''constructor'') = Member ''constructor''
   \<and> map insight_id (mergeSimilarInsights inherited_priority_tree) = [1]
   \<and> dedup_key (traversal inherited_priority_tree ! 1)
     = dedup_key (hd (mergeSimilarInsights inherited_priority_tree))
   \<and> spec_rank (priority (traversal inherited_priority_tree ! 1))
     < spec_rank (priority (hd (mergeSimilarInsights inherited_priority_tree)))
   \<and> map (\<lambda>i. (insight_id i, familyKey i, title i)) (traversal colliding_key_tree)
     = [(1, Some ''a|b'', ''c''), (2, Some ''a|b'', ''c''), (3, Some ''a'', ''b|c'')]
   \<and> map (\<lambda>i. (insight_id i, familyKey i, title i)) (mergeSimilarInsights colliding_key_tree)
     = [(3, Some ''a'', ''b|c'')]"
proof -
  have a: "map (\<lambda>i. (insight_id i, priority i)) (traversal inherited_priority_tree)
     = [(1, Some ''constructor''), (2, Some ''high'')]" by code_simp
  have b: "dedup_key (traversal inherited_priority_tree ! 0)
     = dedup_key (traversal inherited_priority_tree ! 1)" by code_simp
  have c: "spec_rank (Some ''high'') = 0" "spec_rank (Some ''constructor'') = 3"
    by (simp_all add: spec_rank_def)
  have d: "rank (Some ''high'') = Num 0" "rank (Some ''constructor'') = Member ''constructor''"
    by (simp_all add: rank_def lookup_or_def object_prototype_names_def)
  have e: "map insight_id (mergeSimilarInsights inherited_priority_tree) = [1]" by code_simp
  have e1: "dedup_key (traversal inherited_priority_tree ! 1)
     = dedup_key (hd (mergeSimilarInsights inherited_priority_tree))" by code_simp
  have e2: "spec_rank (priority (traversal inherited_priority_tree ! 1))
     < spec_rank (priority (hd (mergeSimilarInsights inherited_priority_tree)))" by code_simp
  have f: "map (\<lambda>i. (insight_id i, familyKey i, title i)) (traversal colliding_key_tree)
     = [(1, Some ''a|b'', ''c''), (2, Some ''a|b'', ''c''), (3, Some ''a'', ''b|c'')]" by code_simp
  have g: "map (\<lambda>i. (insight_id i, familyKey i, title i)) (mergeSimilarInsights colliding_key_tree)
     = [(3, Some ''a'', ''b|c'')]" by code_simp
  from a b c d e e1 e2 f g show ?thesis by (intro conjI)
qed


subsection \<open>The selection loop, pass by pass\<close>

lemma heads_Cons:
  "heads (b # bs) = take 1 (bucket_insights b) @ heads bs"
  by (simp add: heads_def)

lemma tails_Cons:
  "tails (b # bs) = b\<lparr>bucket_insights := drop 1 (bucket_insights b)\<rparr> # tails bs"
  by (simp add: tails_def)

text \<open>A pass that does not reach the limit shifts every head.\<close>

lemma run_pass_short:
  "length selection + length (heads bs) < limit \<Longrightarrow>
     run_pass limit bs selection added
       = (tails bs, selection @ heads bs, added \<or> heads bs \<noteq> [])"
proof (induction bs arbitrary: selection added)
  case Nil
  then show ?case by (simp add: heads_def tails_def)
next
  case (Cons b bs)
  show ?case
  proof (cases "bucket_insights b")
    case Nil
    then have b: "b\<lparr>bucket_insights := []\<rparr> = b" by (cases b) simp
    from Nil Cons.prems have "length selection + length (heads bs) < limit"
      by (simp add: heads_Cons)
    from Cons.IH [OF this] Nil b show ?thesis
      by (simp add: heads_Cons tails_Cons)
  next
    case (Cons x rest)
    with Cons.prems have "length (selection @ [x]) + length (heads bs) < limit"
      by (simp add: heads_Cons)
    from Cons.IH [OF this, of True] Cons Cons.prems show ?thesis
      by (simp add: heads_Cons tails_Cons Let_def)
  qed
qed

text \<open>A pass that reaches the limit stops there.\<close>

lemma run_pass_break:
  "length selection < limit \<Longrightarrow> limit \<le> length selection + length (heads bs) \<Longrightarrow>
     \<exists>bs'. run_pass limit bs selection added
       = (bs', selection @ take (limit - length selection) (heads bs), True)"
proof (induction bs arbitrary: selection added)
  case Nil
  then show ?case by (simp add: heads_def)
next
  case (Cons b bs)
  show ?case
  proof (cases "bucket_insights b")
    case Nil
    with Cons.prems have "limit \<le> length selection + length (heads bs)"
      by (simp add: heads_Cons)
    from Cons.IH [OF Cons.prems(1) this, of added] Nil show ?thesis
      by (auto simp: heads_Cons)
  next
    case c: (Cons x rest)
    show ?thesis
    proof (cases "length (selection @ [x]) = limit")
      case True
      then have "limit - length selection = 1" by simp
      with c True show ?thesis by (simp add: heads_Cons Let_def)
    next
      case False
      with Cons.prems(1) have lt: "length (selection @ [x]) < limit" by simp
      from c Cons.prems have "limit \<le> length (selection @ [x]) + length (heads bs)"
        by (simp add: heads_Cons)
      from Cons.IH [OF lt this, of True] obtain bs' where
        r: "run_pass limit bs (selection @ [x]) True
          = (bs', (selection @ [x]) @ take (limit - length (selection @ [x])) (heads bs), True)"
        by blast
      from lt have "limit - length selection = Suc (limit - length (selection @ [x]))"
        by simp
      with c False r show ?thesis by (simp add: heads_Cons Let_def)
    qed
  qed
qed

lemma select_loop_done: "limit \<le> length selection \<Longrightarrow> select_loop limit bs selection = selection"
  by (subst select_loop.simps) simp

lemma select_loop_passes:
  "length selection \<le> limit \<Longrightarrow>
     select_loop limit bs selection
       = selection @ take (limit - length selection) (concat (passes bs))"
proof (induction bs arbitrary: selection rule: passes.induct)
  case (1 bs)
  show ?case
  proof (cases "length selection < limit")
    case False
    with "1.prems" show ?thesis by (simp add: select_loop_done)
  next
    case lt: True
    show ?thesis
    proof (cases "heads bs = []")
      case True
      with lt have "run_pass limit bs selection False = (tails bs, selection, False)"
        by (simp add: run_pass_short)
      with lt True show ?thesis
        by (subst select_loop.simps, subst passes.simps) simp
    next
      case ne: False
      show ?thesis
      proof (cases "length selection + length (heads bs) < limit")
        case True
        then have run: "run_pass limit bs selection False = (tails bs, selection @ heads bs, True)"
          using ne by (simp add: run_pass_short)
        from True have le: "length (selection @ heads bs) \<le> limit" by simp
        have "select_loop limit bs selection
            = select_loop limit (sortBuckets (tails bs)) (selection @ heads bs)"
          using lt run by (subst select_loop.simps) simp
        also have "\<dots> = (selection @ heads bs)
            @ take (limit - length (selection @ heads bs)) (concat (passes (sortBuckets (tails bs))))"
          using "1.IH" [OF ne le] .
        also have "\<dots> = selection @ take (limit - length selection) (concat (passes bs))"
          using ne True by (subst (2) passes.simps) simp
        finally show ?thesis .
      next
        case False
        then have ge: "limit \<le> length selection + length (heads bs)" by simp
        from run_pass_break [OF lt ge, of False] obtain bs' where
          run: "run_pass limit bs selection False
            = (bs', selection @ take (limit - length selection) (heads bs), True)"
          by blast
        have len: "limit \<le> length (selection @ take (limit - length selection) (heads bs))"
          using lt ge by simp
        have "select_loop limit bs selection
            = select_loop limit (sortBuckets bs') (selection @ take (limit - length selection) (heads bs))"
          using lt run by (subst select_loop.simps) simp
        also have "\<dots> = selection @ take (limit - length selection) (heads bs)"
          using len by (rule select_loop_done)
        also have "\<dots> = selection @ take (limit - length selection) (concat (passes bs))"
          using ne ge by (subst passes.simps) simp
        finally show ?thesis .
      qed
    qed
  qed
qed

text \<open>
  The reduction throws exactly when some bucket key names a member of \<^verbatim>\<open>Object.prototype\<close>;
  otherwise it builds the buckets.
\<close>

lemma push_keys:
  "map bucket_familyKey
     (map (\<lambda>b. if bucket_familyKey b = k
                then b\<lparr>bucket_insights := bucket_insights b @ [i]\<rparr> else b) acc)
   = map bucket_familyKey acc"
  by (induction acc) auto

lemma add_to_bucket_keys:
  "set (map bucket_familyKey (add_to_bucket i acc))
     = insert (bucket_key i) (set (map bucket_familyKey acc))"
proof (cases "bucket_key i \<in> set (map bucket_familyKey acc)")
  case True
  then have "add_to_bucket i acc
      = map (\<lambda>b. if bucket_familyKey b = bucket_key i
                   then b\<lparr>bucket_insights := bucket_insights b @ [i]\<rparr> else b) acc"
    by (simp add: add_to_bucket_def Let_def)
  then have "map bucket_familyKey (add_to_bucket i acc) = map bucket_familyKey acc"
    by (simp only: push_keys)
  with True show ?thesis by (simp only: insert_absorb)
next
  case False
  then show ?thesis by (simp add: add_to_bucket_def Let_def)
qed

lemma reduce_insights_plain:
  "\<forall>i \<in> set xs. bucket_key i \<notin> set object_prototype_names \<Longrightarrow>
     reduce_insights xs acc = Inr (fold add_to_bucket xs acc)"
  by (induction xs arbitrary: acc) (simp_all add: group_step_def)

lemma reduce_insights_throws:
  assumes "\<exists>i \<in> set xs. bucket_key i \<in> set object_prototype_names"
    and "set (map bucket_familyKey acc) \<inter> set object_prototype_names = {}"
  shows "reduce_insights xs acc = Inl TypeError"
  using assms
proof (induction xs arbitrary: acc)
  case Nil
  then show ?case by simp
next
  case (Cons x xs)
  show ?case
  proof (cases "bucket_key x \<in> set object_prototype_names")
    case True
    with Cons.prems(2) have "bucket_key x \<notin> set (map bucket_familyKey acc)" by blast
    with True show ?thesis by (simp add: group_step_def)
  next
    case False
    with Cons.prems(1) have ex: "\<exists>i \<in> set xs. bucket_key i \<in> set object_prototype_names"
      by auto
    have "set (map bucket_familyKey (add_to_bucket x acc)) \<inter> set object_prototype_names = {}"
      using False Cons.prems(2) by (simp only: add_to_bucket_keys) blast
    from Cons.IH [OF ex this] False show ?thesis by (simp add: group_step_def)
  qed
qed

lemma getDiverseInsights_throws:
  "getDiverseInsights xs n = Inl TypeError
     \<longleftrightarrow> (\<exists>i \<in> set xs. bucket_key i \<in> set object_prototype_names)"
proof (cases "\<exists>i \<in> set xs. bucket_key i \<in> set object_prototype_names")
  case True
  then have "xs \<noteq> []" by auto
  moreover from True have "reduce_insights xs [] = Inl TypeError"
    by (rule reduce_insights_throws) simp
  ultimately show ?thesis using True by (simp add: getDiverseInsights_def)
next
  case False
  then have "reduce_insights xs [] = Inr (fold add_to_bucket xs [])"
    by (intro reduce_insights_plain) blast
  with False show ?thesis by (simp add: getDiverseInsights_def)
qed

lemma getDiverseInsights_passes:
  assumes "\<forall>i \<in> set xs. bucket_key i \<notin> set object_prototype_names"
  shows "getDiverseInsights xs n = Inr (take n (concat (passes (initial_buckets xs))))"
proof (cases "xs = []")
  case True
  have "heads (initial_buckets []) = []"
    by (simp add: initial_buckets_def group_by_family_def object_values_def sortBuckets_def
        array_sort_def heads_def)
  then have "passes (initial_buckets []) = []" by (subst passes.simps) simp
  with True show ?thesis by (simp add: getDiverseInsights_def)
next
  case False
  from assms have "reduce_insights xs [] = Inr (fold add_to_bucket xs [])"
    by (rule reduce_insights_plain)
  with False show ?thesis
    using select_loop_passes [of "[]" n "initial_buckets xs"]
    by (simp add: getDiverseInsights_def initial_buckets_def group_by_family_def)
qed

subsection \<open>On plain insights the comparators are total preorders, so the sorts sort\<close>

lemma sorted_insert_sorted:
  assumes total: "\<And>a b. P a \<Longrightarrow> P b \<Longrightarrow> cmp a b \<le> 0 \<or> cmp b a \<le> 0"
    and trans: "\<And>a b c. P a \<Longrightarrow> P b \<Longrightarrow> P c \<Longrightarrow> cmp a b \<le> 0 \<Longrightarrow> cmp b c \<le> 0 \<Longrightarrow> cmp a c \<le> 0"
    and x: "P x"
  shows "\<forall>y \<in> set ys. P y \<Longrightarrow> sorted_wrt (\<lambda>a b. cmp a b \<le> 0) ys \<Longrightarrow>
    sorted_wrt (\<lambda>a b. cmp a b \<le> 0) (insert_sorted cmp x ys)"
proof (induction ys)
  case Nil
  then show ?case by simp
next
  case (Cons y ys)
  from Cons.prems have y_le: "\<And>z. z \<in> set ys \<Longrightarrow> cmp y z \<le> 0"
    and ys: "sorted_wrt (\<lambda>a b. cmp a b \<le> 0) ys"
    and Py: "P y" and Pys: "\<forall>z \<in> set ys. P z" by simp_all
  show ?case
  proof (cases "cmp x y \<le> 0")
    case True
    have "cmp x z \<le> 0" if "z \<in> set ys" for z
      using trans [OF x Py _ True y_le [OF that]] Pys that by simp
    with True Cons.prems show ?thesis by simp
  next
    case False
    with total [OF x Py] have "cmp y x \<le> 0" by simp
    moreover have "sorted_wrt (\<lambda>a b. cmp a b \<le> 0) (insert_sorted cmp x ys)"
      using Pys ys by (rule Cons.IH)
    ultimately show ?thesis using False y_le by (simp add: set_insert_sorted)
  qed
qed

lemma sorted_array_sort:
  assumes total: "\<And>a b. P a \<Longrightarrow> P b \<Longrightarrow> cmp a b \<le> 0 \<or> cmp b a \<le> 0"
    and trans: "\<And>a b c. P a \<Longrightarrow> P b \<Longrightarrow> P c \<Longrightarrow> cmp a b \<le> 0 \<Longrightarrow> cmp b c \<le> 0 \<Longrightarrow> cmp a c \<le> 0"
  shows "\<forall>x \<in> set xs. P x \<Longrightarrow> sorted_wrt (\<lambda>a b. cmp a b \<le> 0) (array_sort cmp xs)"
proof (induction xs)
  case Nil
  then show ?case by (simp add: array_sort_def)
next
  case (Cons x xs)
  have "sorted_wrt (\<lambda>a b. cmp a b \<le> 0) (insert_sorted cmp x (array_sort cmp xs))"
  proof (rule sorted_insert_sorted [where P = P])
    show "cmp a b \<le> 0 \<or> cmp b a \<le> 0" if "P a" "P b" for a b using that by (rule total)
    show "cmp a c \<le> 0" if "P a" "P b" "P c" "cmp a b \<le> 0" "cmp b c \<le> 0" for a b c
      using that by (rule trans)
    show "P x" using Cons.prems by simp
    show "\<forall>y \<in> set (array_sort cmp xs). P y" using Cons.prems by (simp add: set_array_sort)
    show "sorted_wrt (\<lambda>a b. cmp a b \<le> 0) (array_sort cmp xs)"
      using Cons.prems by (intro Cons.IH) simp
  qed
  then show ?case by (simp add: array_sort_def)
qed

text \<open>The scores of a plain insight are numbers.\<close>

lemma lookup_or_plain:
  "key \<notin> set object_prototype_names \<Longrightarrow> \<exists>v. lookup_or table key fallback = Num v"
  by (simp add: lookup_or_def split: option.split)

lemma plain_scores:
  assumes "plain_insight i"
  shows "\<exists>q p. quickScore (scoreInsight i) = Num q \<and> priorityScore (scoreInsight i) = Num p"
proof -
  have "\<exists>q. quickScore (scoreInsight i) = Num q"
  proof (cases "js_or (familyKey i) (family i)")
    case None
    then show ?thesis by (simp add: scoreInsight_def Let_def)
  next
    case (Some k)
    with assms have "k \<notin> set object_prototype_names" by (simp add: plain_insight_def)
    from lookup_or_plain [OF this] Some show ?thesis by (simp add: scoreInsight_def Let_def)
  qed
  moreover have "\<exists>p. priorityScore (scoreInsight i) = Num p"
  proof (cases "priority i")
    case None
    then show ?thesis by (simp add: scoreInsight_def getPriorityRank_def)
  next
    case (Some s)
    with assms have "toLowerCase s \<notin> set object_prototype_names" by (simp add: plain_insight_def)
    from lookup_or_plain [OF this] Some show ?thesis
      by (simp add: scoreInsight_def getPriorityRank_def)
  qed
  ultimately show ?thesis by blast
qed

lemma compareInsights_le:
  assumes "quickScore (scoreInsight a) = Num qa" "priorityScore (scoreInsight a) = Num pa"
    and "quickScore (scoreInsight b) = Num qb" "priorityScore (scoreInsight b) = Num pb"
  shows "SortCompare compareInsights a b \<le> 0 \<longleftrightarrow>
     qb < qa \<or> (qa = qb \<and> (pa < pb
        \<or> (pa = pb \<and> recencyScore (scoreInsight a) \<le> recencyScore (scoreInsight b))))"
proof -
  define ra rb where "ra = recencyScore (scoreInsight a)" and "rb = recencyScore (scoreInsight b)"
  have "SortCompare compareInsights a b
      = (if qa \<noteq> qb then qb - qa else if pa \<noteq> pb then pa - pb else ra - rb)"
    using assms by (simp add: SortCompare_def compareInsights_def Let_def js_minus_def ra_def rb_def)
  also have "\<dots> \<le> 0 \<longleftrightarrow> qb < qa \<or> (qa = qb \<and> (pa < pb \<or> (pa = pb \<and> ra \<le> rb)))"
    by (cases "qa = qb"; cases "pa = pb") auto
  finally show ?thesis by (simp only: ra_def rb_def)
qed

lemma lex3_total:
  fixes qa pa ra qb pb rb :: int
  shows "(qb < qa \<or> (qa = qb \<and> (pa < pb \<or> (pa = pb \<and> ra \<le> rb))))
       \<or> (qa < qb \<or> (qb = qa \<and> (pb < pa \<or> (pb = pa \<and> rb \<le> ra))))"
  by (cases "qa = qb"; cases "pa = pb") auto

lemma lex3_trans:
  fixes qa pa ra qb pb rb qc pc rc :: int
  assumes "qb < qa \<or> (qa = qb \<and> (pa < pb \<or> (pa = pb \<and> ra \<le> rb)))"
    and "qc < qb \<or> (qb = qc \<and> (pb < pc \<or> (pb = pc \<and> rb \<le> rc)))"
  shows "qc < qa \<or> (qa = qc \<and> (pa < pc \<or> (pa = pc \<and> ra \<le> rc)))"
  using assms by (cases "qa = qb"; cases "qb = qc"; cases "pa = pb"; cases "pb = pc") auto

lemma compareInsights_total:
  assumes "plain_insight a" "plain_insight b"
  shows "SortCompare compareInsights a b \<le> 0 \<or> SortCompare compareInsights b a \<le> 0"
proof -
  from plain_scores [OF assms(1)] obtain qa pa where
    a: "quickScore (scoreInsight a) = Num qa" "priorityScore (scoreInsight a) = Num pa" by blast
  from plain_scores [OF assms(2)] obtain qb pb where
    b: "quickScore (scoreInsight b) = Num qb" "priorityScore (scoreInsight b) = Num pb" by blast
  show ?thesis
    unfolding compareInsights_le [OF a b] compareInsights_le [OF b a] by (rule lex3_total)
qed

lemma compareInsights_trans:
  assumes "plain_insight a" "plain_insight b" "plain_insight c"
    and "SortCompare compareInsights a b \<le> 0" "SortCompare compareInsights b c \<le> 0"
  shows "SortCompare compareInsights a c \<le> 0"
proof -
  from plain_scores [OF assms(1)] obtain qa pa where
    a: "quickScore (scoreInsight a) = Num qa" "priorityScore (scoreInsight a) = Num pa" by blast
  from plain_scores [OF assms(2)] obtain qb pb where
    b: "quickScore (scoreInsight b) = Num qb" "priorityScore (scoreInsight b) = Num pb" by blast
  from plain_scores [OF assms(3)] obtain qc pc where
    c: "quickScore (scoreInsight c) = Num qc" "priorityScore (scoreInsight c) = Num pc" by blast
  from assms(4,5) show ?thesis
    unfolding compareInsights_le [OF a b] compareInsights_le [OF b c] compareInsights_le [OF a c]
    by (rule lex3_trans)
qed

lemma compareInsights_refl: "plain_insight a \<Longrightarrow> SortCompare compareInsights a a \<le> 0"
  using compareInsights_total [of a a] by simp

lemma compareBuckets_le:
  "SortCompare compareBuckets a b \<le> 0 \<longleftrightarrow>
     bucket_insights b = []
     \<or> (bucket_insights a \<noteq> []
         \<and> SortCompare compareInsights (hd (bucket_insights a)) (hd (bucket_insights b)) \<le> 0)"
  by (cases "bucket_insights a"; cases "bucket_insights b")
    (simp_all add: compareBuckets_def SortCompare_def)

text \<open>A bucket is plain when its insights are.\<close>

lemma compareBuckets_total:
  assumes "\<forall>i \<in> set (bucket_insights a). plain_insight i"
    and "\<forall>i \<in> set (bucket_insights b). plain_insight i"
  shows "SortCompare compareBuckets a b \<le> 0 \<or> SortCompare compareBuckets b a \<le> 0"
proof (cases "bucket_insights a = [] \<or> bucket_insights b = []")
  case True
  then show ?thesis by (auto simp: compareBuckets_le)
next
  case False
  with assms have "plain_insight (hd (bucket_insights a))" "plain_insight (hd (bucket_insights b))"
    by simp_all
  from compareInsights_total [OF this] False show ?thesis by (simp add: compareBuckets_le)
qed

lemma compareBuckets_trans:
  assumes plain: "\<forall>i \<in> set (bucket_insights a). plain_insight i"
      "\<forall>i \<in> set (bucket_insights b). plain_insight i"
      "\<forall>i \<in> set (bucket_insights c). plain_insight i"
    and le: "SortCompare compareBuckets a b \<le> 0" "SortCompare compareBuckets b c \<le> 0"
  shows "SortCompare compareBuckets a c \<le> 0"
proof (cases "bucket_insights c = []")
  case True
  then show ?thesis by (simp add: compareBuckets_le)
next
  case False
  with le(2) have b: "bucket_insights b \<noteq> []"
    "SortCompare compareInsights (hd (bucket_insights b)) (hd (bucket_insights c)) \<le> 0"
    by (simp_all add: compareBuckets_le)
  with le(1) have a: "bucket_insights a \<noteq> []"
    "SortCompare compareInsights (hd (bucket_insights a)) (hd (bucket_insights b)) \<le> 0"
    by (simp_all add: compareBuckets_le)
  from plain a(1) b(1) False
  have "plain_insight (hd (bucket_insights a))" "plain_insight (hd (bucket_insights b))"
    "plain_insight (hd (bucket_insights c))" by simp_all
  from compareInsights_trans [OF this a(2) b(2)] a(1) show ?thesis
    by (simp add: compareBuckets_le)
qed

lemma sorted_sortBuckets:
  assumes "\<forall>b \<in> set bs. \<forall>i \<in> set (bucket_insights b). plain_insight i"
  shows "sorted_wrt (\<lambda>a b. SortCompare compareBuckets a b \<le> 0) (sortBuckets bs)"
  unfolding sortBuckets_def
proof (rule sorted_array_sort [where P = "\<lambda>b. \<forall>i \<in> set (bucket_insights b). plain_insight i"])
  show "SortCompare compareBuckets a b \<le> 0 \<or> SortCompare compareBuckets b a \<le> 0"
    if "\<forall>i \<in> set (bucket_insights a). plain_insight i"
      "\<forall>i \<in> set (bucket_insights b). plain_insight i" for a b
    using that by (rule compareBuckets_total)
  show "SortCompare compareBuckets a c \<le> 0"
    if "\<forall>i \<in> set (bucket_insights a). plain_insight i"
      "\<forall>i \<in> set (bucket_insights b). plain_insight i"
      "\<forall>i \<in> set (bucket_insights c). plain_insight i"
      "SortCompare compareBuckets a b \<le> 0" "SortCompare compareBuckets b c \<le> 0" for a b c
    using that by (rule compareBuckets_trans)
  show "\<forall>b \<in> set bs. \<forall>i \<in> set (bucket_insights b). plain_insight i" by (rule assms)
qed

lemma sorted_sort_bucket:
  assumes "\<forall>i \<in> set (bucket_insights b). plain_insight i"
  shows "sorted_wrt (\<lambda>a b. SortCompare compareInsights a b \<le> 0) (bucket_insights (sort_bucket b))"
proof -
  have "sorted_wrt (\<lambda>a b. SortCompare compareInsights a b \<le> 0)
      (array_sort (SortCompare compareInsights) (bucket_insights b))"
  proof (rule sorted_array_sort [where P = plain_insight])
    show "SortCompare compareInsights a b \<le> 0 \<or> SortCompare compareInsights b a \<le> 0"
      if "plain_insight a" "plain_insight b" for a b
      using that by (rule compareInsights_total)
    show "SortCompare compareInsights a c \<le> 0"
      if "plain_insight a" "plain_insight b" "plain_insight c"
        "SortCompare compareInsights a b \<le> 0" "SortCompare compareInsights b c \<le> 0" for a b c
      using that by (rule compareInsights_trans)
    show "\<forall>i \<in> set (bucket_insights b). plain_insight i" by (rule assms)
  qed
  then show ?thesis by (simp add: sort_bucket_def)
qed


subsection \<open>The buckets partition the insights\<close>

lemma grouped_update:
  assumes "distinct (map bucket_familyKey bs)" "k \<in> set (map bucket_familyKey bs)"
  shows "mset (concat (map bucket_insights
            (map (\<lambda>b. if bucket_familyKey b = k
                        then b\<lparr>bucket_insights := bucket_insights b @ [x]\<rparr> else b) bs)))
       = add_mset x (mset (concat (map bucket_insights bs)))"
  using assms
proof (induction bs)
  case Nil
  then show ?case by simp
next
  case (Cons b bs)
  show ?case
  proof (cases "bucket_familyKey b = k")
    case True
    with Cons.prems have "k \<notin> set (map bucket_familyKey bs)" by simp
    then have "map (\<lambda>b. if bucket_familyKey b = k
                        then b\<lparr>bucket_insights := bucket_insights b @ [x]\<rparr> else b) bs = bs"
      by (induction bs) auto
    with True show ?thesis by simp
  next
    case False
    with Cons.prems have "distinct (map bucket_familyKey bs)" "k \<in> set (map bucket_familyKey bs)"
      by auto
    from Cons.IH [OF this] False show ?thesis by simp
  qed
qed

lemma grouped_step:
  assumes g: "grouped xs bs"
  shows "grouped (xs @ [x]) (add_to_bucket x bs)"
proof -
  let ?k = "bucket_key x"
  from g have dist: "distinct (map bucket_familyKey bs)"
    and keys: "bucket_familyKey ` set bs = bucket_key ` set xs"
    and each: "\<And>b. b \<in> set bs \<Longrightarrow>
        mset (bucket_insights b) = mset (filter (\<lambda>i. bucket_key i = bucket_familyKey b) xs)"
    and all: "mset (concat (map bucket_insights bs)) = mset xs"
    unfolding grouped_def by blast+
  show ?thesis
  proof (cases "?k \<in> set (map bucket_familyKey bs)")
    case True
    let ?upd = "\<lambda>b. if bucket_familyKey b = ?k
                        then b\<lparr>bucket_insights := bucket_insights b @ [x]\<rparr> else b"
    have step: "add_to_bucket x bs = map ?upd bs"
      using True by (simp add: add_to_bucket_def Let_def)
    have k1: "map bucket_familyKey (map ?upd bs) = map bucket_familyKey bs"
      by (induction bs) auto
    have d: "distinct (map bucket_familyKey (map ?upd bs))" using dist by (simp only: k1)
    have ks: "bucket_familyKey ` set (map ?upd bs) = bucket_key ` set (xs @ [x])"
    proof -
      have "bucket_familyKey ` set (map ?upd bs) = set (map bucket_familyKey (map ?upd bs))"
        by (simp only: set_map)
      also have "\<dots> = bucket_familyKey ` set bs" by (simp only: k1 set_map)
      also have "\<dots> = bucket_key ` set (xs @ [x])" using keys True by auto
      finally show ?thesis .
    qed
    have e: "\<forall>b' \<in> set (map ?upd bs). mset (bucket_insights b')
        = mset (filter (\<lambda>i. bucket_key i = bucket_familyKey b') (xs @ [x]))"
    proof
      fix b' assume "b' \<in> set (map ?upd bs)"
      then obtain b where b: "b \<in> set bs" "b' = ?upd b" by auto
      show "mset (bucket_insights b')
          = mset (filter (\<lambda>i. bucket_key i = bucket_familyKey b') (xs @ [x]))"
        using each [OF b(1)] b(2) by (cases "bucket_familyKey b = ?k") auto
    qed
    have a: "mset (concat (map bucket_insights (map ?upd bs))) = mset (xs @ [x])"
      using grouped_update [OF dist True, of x] all by simp
    from d ks e a show ?thesis unfolding step grouped_def by blast
  next
    case False
    let ?new = "\<lparr>bucket_familyKey = ?k, bucket_insights = [x]\<rparr>"
    have step: "add_to_bucket x bs = bs @ [?new]"
      using False by (simp add: add_to_bucket_def Let_def)
    from False keys have nok: "?k \<notin> bucket_key ` set xs" by simp
    then have empty: "filter (\<lambda>i. bucket_key i = ?k) xs = []"
      unfolding filter_empty_conv by (metis imageI)
    have d: "distinct (map bucket_familyKey (bs @ [?new]))" using dist False by simp
    have ks: "bucket_familyKey ` set (bs @ [?new]) = bucket_key ` set (xs @ [x])"
      using keys by auto
    have e: "\<forall>b' \<in> set (bs @ [?new]). mset (bucket_insights b')
        = mset (filter (\<lambda>i. bucket_key i = bucket_familyKey b') (xs @ [x]))"
    proof
      fix b' assume "b' \<in> set (bs @ [?new])"
      then consider "b' \<in> set bs" | "b' = ?new" by auto
      then show "mset (bucket_insights b')
          = mset (filter (\<lambda>i. bucket_key i = bucket_familyKey b') (xs @ [x]))"
      proof cases
        case 1
        with False have "bucket_familyKey b' \<noteq> ?k" by (metis imageI set_map)
        with each [OF 1] show ?thesis by auto
      next
        case 2
        with empty show ?thesis by simp
      qed
    qed
    have a: "mset (concat (map bucket_insights (bs @ [?new]))) = mset (xs @ [x])"
      using all by simp
    from d ks e a show ?thesis unfolding step grouped_def by blast
  qed
qed

lemma grouped_fold: "grouped xs (fold add_to_bucket xs [])"
proof (induction xs rule: rev_induct)
  case Nil
  then show ?case by (simp add: grouped_def)
next
  case (snoc x xs)
  then show ?case using grouped_step [of xs "fold add_to_bucket xs []" x] by simp
qed

lemma grouped_perm:
  assumes "grouped xs bs" "mset bs' = mset bs"
  shows "grouped xs bs'"
proof -
  from assms(2) have s: "set bs' = set bs" by (rule mset_eq_setD)
  have "mset (map bucket_familyKey bs') = mset (map bucket_familyKey bs)"
    using assms(2) by simp
  then have d: "distinct (map bucket_familyKey bs') \<longleftrightarrow> distinct (map bucket_familyKey bs)"
    by (rule mset_eq_imp_distinct_iff)
  have "mset (map (\<lambda>b. mset (bucket_insights b)) bs') = mset (map (\<lambda>b. mset (bucket_insights b)) bs)"
    using assms(2) by simp
  then have "sum_list (map (\<lambda>b. mset (bucket_insights b)) bs')
      = sum_list (map (\<lambda>b. mset (bucket_insights b)) bs)"
    by (metis sum_mset_sum_list)
  then have c: "mset (concat (map bucket_insights bs')) = mset (concat (map bucket_insights bs))"
    by (simp add: mset_concat comp_def)
  from assms(1) s d c show ?thesis unfolding grouped_def by simp
qed

lemma grouped_sort_bucket:
  assumes "grouped xs bs"
  shows "grouped xs (map sort_bucket bs)"
proof -
  have k: "map bucket_familyKey (map sort_bucket bs) = map bucket_familyKey bs"
    by (simp add: sort_bucket_def)
  have m: "map (\<lambda>b. mset (bucket_insights b)) (map sort_bucket bs)
      = map (\<lambda>b. mset (bucket_insights b)) bs"
    by (simp add: sort_bucket_def mset_array_sort)
  have "distinct (map bucket_familyKey bs)"
    using assms unfolding grouped_def by blast
  then have "distinct (map bucket_familyKey (map sort_bucket bs))"
    by (simp only: k)
  moreover have "bucket_familyKey ` set (map sort_bucket bs) = bucket_key ` set xs"
  proof -
    have "bucket_familyKey ` set (map sort_bucket bs) = set (map bucket_familyKey (map sort_bucket bs))"
      by (simp only: set_map)
    also have "\<dots> = bucket_familyKey ` set bs" by (simp only: k set_map)
    finally show ?thesis using assms unfolding grouped_def by blast
  qed
  moreover have "\<forall>b \<in> set (map sort_bucket bs). mset (bucket_insights b)
           = mset (filter (\<lambda>i. bucket_key i = bucket_familyKey b) xs)"
    using assms unfolding grouped_def by (auto simp: sort_bucket_def mset_array_sort)
  moreover have "mset (concat (map bucket_insights (map sort_bucket bs))) = mset xs"
  proof -
    have "mset (concat (map bucket_insights (map sort_bucket bs)))
        = sum_list (map (\<lambda>b. mset (bucket_insights b)) (map sort_bucket bs))"
      by (simp add: mset_concat comp_def)
    also have "\<dots> = sum_list (map (\<lambda>b. mset (bucket_insights b)) bs)" by (simp only: m)
    also have "\<dots> = mset (concat (map bucket_insights bs))" by (simp add: mset_concat comp_def)
    finally show ?thesis using assms unfolding grouped_def by simp
  qed
  ultimately show ?thesis unfolding grouped_def by blast
qed

lemma mset_object_values: "mset (object_values acc) = mset acc"
  by (simp add: object_values_def)

lemma grouped_group_by_family: "grouped xs (group_by_family xs)"
  unfolding group_by_family_def
  by (rule grouped_perm [OF grouped_fold]) (rule mset_object_values)

lemma grouped_initial: "grouped xs (initial_buckets xs)"
  unfolding initial_buckets_def sortBuckets_def
  by (rule grouped_perm [OF grouped_sort_bucket [OF grouped_group_by_family]])
    (rule mset_array_sort)

lemma grouped_nonempty:
  assumes "grouped xs bs" "b \<in> set bs"
  shows "bucket_insights b \<noteq> []"
proof -
  from assms have "bucket_familyKey b \<in> bucket_key ` set xs" unfolding grouped_def by blast
  then have "filter (\<lambda>i. bucket_key i = bucket_familyKey b) xs \<noteq> []"
    by (auto simp: filter_empty_conv)
  moreover from assms have "mset (bucket_insights b)
      = mset (filter (\<lambda>i. bucket_key i = bucket_familyKey b) xs)"
    unfolding grouped_def by blast
  ultimately show ?thesis by (metis mset_zero_iff)
qed

lemma grouped_members:
  assumes "grouped xs bs" "b \<in> set bs"
  shows "set (bucket_insights b) = {i \<in> set xs. bucket_key i = bucket_familyKey b}"
proof -
  from assms have "mset (bucket_insights b)
      = mset (filter (\<lambda>i. bucket_key i = bucket_familyKey b) xs)"
    unfolding grouped_def by blast
  then have "set (bucket_insights b) = set (filter (\<lambda>i. bucket_key i = bucket_familyKey b) xs)"
    by (rule mset_eq_setD)
  then show ?thesis by simp
qed

lemma grouped_well_keyed: "grouped xs bs \<Longrightarrow> well_keyed bs"
  unfolding well_keyed_def using grouped_members by (auto simp: grouped_def)

lemma grouped_length:
  assumes "grouped xs bs"
  shows "length bs = card (bucket_key ` set xs)"
proof -
  from assms have "distinct (map bucket_familyKey bs)" unfolding grouped_def by blast
  then have "card (set (map bucket_familyKey bs)) = length (map bucket_familyKey bs)"
    by (rule distinct_card)
  moreover from assms have "set (map bucket_familyKey bs) = bucket_key ` set xs"
    unfolding grouped_def by simp
  ultimately show ?thesis by simp
qed

lemma plain_buckets:
  assumes "\<forall>i \<in> set xs. plain_insight i" "grouped xs bs"
  shows "\<forall>b \<in> set bs. \<forall>i \<in> set (bucket_insights b). plain_insight i"
  using assms grouped_members [OF assms(2)] by auto

lemma sorted_initial:
  assumes "\<forall>i \<in> set xs. plain_insight i"
  shows "sorted_wrt (\<lambda>a b. SortCompare compareBuckets a b \<le> 0) (initial_buckets xs)"
  unfolding initial_buckets_def
  by (rule sorted_sortBuckets)
    (rule plain_buckets [OF assms grouped_sort_bucket [OF grouped_group_by_family]])

lemma sorted_initial_bucket:
  assumes "\<forall>i \<in> set xs. plain_insight i" "b \<in> set (initial_buckets xs)"
  shows "sorted_wrt (\<lambda>a b. SortCompare compareInsights a b \<le> 0) (bucket_insights b)"
proof -
  from assms(2) have "b \<in> set (map sort_bucket (group_by_family xs))"
    by (simp add: initial_buckets_def sortBuckets_def set_array_sort)
  then obtain b0 where b0: "b0 \<in> set (group_by_family xs)" "b = sort_bucket b0" by auto
  from plain_buckets [OF assms(1) grouped_group_by_family] b0(1)
  have "\<forall>i \<in> set (bucket_insights b0). plain_insight i" by blast
  then show ?thesis unfolding b0(2) by (rule sorted_sort_bucket)
qed

subsection \<open>Passes\<close>

lemma mset_concat_perm:
  assumes "mset bs' = mset bs"
  shows "mset (concat (map bucket_insights bs')) = mset (concat (map bucket_insights bs))"
proof -
  have "mset (map (\<lambda>b. mset (bucket_insights b)) bs') = mset (map (\<lambda>b. mset (bucket_insights b)) bs)"
    using assms by simp
  then have "sum_list (map (\<lambda>b. mset (bucket_insights b)) bs')
      = sum_list (map (\<lambda>b. mset (bucket_insights b)) bs)"
    by (metis sum_mset_sum_list)
  then show ?thesis by (simp add: mset_concat comp_def)
qed

lemma mset_heads_tails:
  "mset (heads bs) + mset (concat (map bucket_insights (tails bs)))
     = mset (concat (map bucket_insights bs))"
proof (induction bs)
  case Nil
  then show ?case by (simp add: heads_def tails_def)
next
  case (Cons b bs)
  have "mset (take 1 (bucket_insights b)) + mset (drop 1 (bucket_insights b))
      = mset (bucket_insights b)"
    by (metis append_take_drop_id mset_append)
  with Cons show ?case
    by (simp add: heads_Cons tails_Cons) (metis (no_types, lifting) add.assoc add.commute add.left_commute)
qed

lemma heads_empty: "heads bs = [] \<Longrightarrow> concat (map bucket_insights bs) = []"
  by (induction bs) (auto simp: heads_Cons)

lemma mset_passes: "mset (concat (passes bs)) = mset (concat (map bucket_insights bs))"
proof (induction bs rule: passes.induct)
  case (1 bs)
  show ?case
  proof (cases "heads bs = []")
    case True
    then show ?thesis by (subst passes.simps) (simp add: heads_empty)
  next
    case False
    have "mset (concat (passes bs))
        = mset (heads bs) + mset (concat (passes (sortBuckets (tails bs))))"
      using False by (subst passes.simps) simp
    also have "\<dots> = mset (heads bs) + mset (concat (map bucket_insights (sortBuckets (tails bs))))"
      using "1.IH" [OF False] by simp
    also have "\<dots> = mset (heads bs) + mset (concat (map bucket_insights (tails bs)))"
      using mset_concat_perm [of "sortBuckets (tails bs)" "tails bs"]
      by (simp add: sortBuckets_def mset_array_sort)
    finally show ?thesis by (simp add: mset_heads_tails)
  qed
qed

lemma take_passes:
  "n \<le> length (heads bs) \<Longrightarrow> take n (concat (passes bs)) = take n (heads bs)"
  by (subst passes.simps) auto

lemma heads_nonempty:
  "\<forall>b \<in> set bs. bucket_insights b \<noteq> [] \<Longrightarrow>
     heads bs = map (\<lambda>b. hd (bucket_insights b)) bs"
proof (induction bs)
  case Nil
  then show ?case by (simp add: heads_def)
next
  case (Cons b bs)
  then show ?case by (cases "bucket_insights b") (simp_all add: heads_Cons)
qed

lemma well_keyed_tails: "well_keyed bs \<Longrightarrow> well_keyed (tails bs)"
proof -
  assume w: "well_keyed bs"
  have k: "map bucket_familyKey (tails bs) = map bucket_familyKey bs"
    by (simp add: tails_def)
  from w have "distinct (map bucket_familyKey (tails bs))"
    unfolding well_keyed_def by (simp only: k)
  moreover have "\<forall>b \<in> set (tails bs). \<forall>i \<in> set (bucket_insights b). bucket_key i = bucket_familyKey b"
  proof (intro ballI)
    fix b i assume "b \<in> set (tails bs)" "i \<in> set (bucket_insights b)"
    then obtain b0 where b0: "b0 \<in> set bs" "b = b0\<lparr>bucket_insights := drop 1 (bucket_insights b0)\<rparr>"
      by (auto simp: tails_def)
    with \<open>i \<in> set (bucket_insights b)\<close> have "i \<in> set (bucket_insights b0)"
      by (auto dest: in_set_dropD)
    with w b0 show "bucket_key i = bucket_familyKey b" unfolding well_keyed_def by simp
  qed
  ultimately show ?thesis unfolding well_keyed_def by blast
qed

lemma well_keyed_sortBuckets: "well_keyed bs \<Longrightarrow> well_keyed (sortBuckets bs)"
proof -
  assume w: "well_keyed bs"
  have m: "mset (sortBuckets bs) = mset bs" by (simp add: sortBuckets_def mset_array_sort)
  then have "mset (map bucket_familyKey (sortBuckets bs)) = mset (map bucket_familyKey bs)"
    by simp
  then have "distinct (map bucket_familyKey (sortBuckets bs)) \<longleftrightarrow> distinct (map bucket_familyKey bs)"
    by (rule mset_eq_imp_distinct_iff)
  moreover have "set (sortBuckets bs) = set bs" using m by (rule mset_eq_setD)
  ultimately show ?thesis using w unfolding well_keyed_def by simp
qed

lemma well_keyed_heads: "well_keyed bs \<Longrightarrow> distinct (map bucket_key (heads bs))"
proof (induction bs)
  case Nil
  then show ?case by (simp add: heads_def)
next
  case (Cons b bs)
  from Cons.prems have w: "well_keyed bs" unfolding well_keyed_def by simp
  have keys: "bucket_key ` set (heads bs) \<subseteq> bucket_familyKey ` set bs"
  proof
    fix k assume "k \<in> bucket_key ` set (heads bs)"
    then obtain i where i: "i \<in> set (heads bs)" "k = bucket_key i" by blast
    then obtain b' where b': "b' \<in> set bs" "i \<in> set (take 1 (bucket_insights b'))"
      by (auto simp: heads_def)
    then have "i \<in> set (bucket_insights b')" by (meson in_set_takeD)
    with w b'(1) i(2) have "k = bucket_familyKey b'" unfolding well_keyed_def by simp
    with b'(1) show "k \<in> bucket_familyKey ` set bs" by blast
  qed
  show ?case
  proof (cases "bucket_insights b")
    case Nil
    with Cons.IH [OF w] show ?thesis by (simp add: heads_Cons)
  next
    case c: (Cons x rest)
    from Cons.prems have "bucket_key x = bucket_familyKey b"
      "bucket_familyKey b \<notin> bucket_familyKey ` set bs"
      using c unfolding well_keyed_def by auto
    with keys have "bucket_key x \<notin> bucket_key ` set (heads bs)" by auto
    with Cons.IH [OF w] c show ?thesis by (simp add: heads_Cons)
  qed
qed

lemma passes_distinct:
  "well_keyed bs \<Longrightarrow> p \<in> set (passes bs) \<Longrightarrow> distinct (map bucket_key p)"
proof (induction bs rule: passes.induct)
  case (1 bs)
  show ?case
  proof (cases "heads bs = []")
    case True
    with "1.prems"(2) show ?thesis by (subst (asm) passes.simps) simp
  next
    case False
    from "1.prems"(2) False have "p = heads bs \<or> p \<in> set (passes (sortBuckets (tails bs)))"
      by (subst (asm) passes.simps) simp
    then show ?thesis
    proof
      assume "p = heads bs"
      with "1.prems"(1) show ?thesis by (simp add: well_keyed_heads)
    next
      assume "p \<in> set (passes (sortBuckets (tails bs)))"
      with "1.IH" [OF False] "1.prems"(1) show ?thesis
        by (simp add: well_keyed_sortBuckets well_keyed_tails)
    qed
  qed
qed

lemma distinct_filter_le1: "distinct (map f p) \<Longrightarrow> length (filter (\<lambda>i. f i = k) p) \<le> 1"
proof (induction p)
  case Nil
  then show ?case by simp
next
  case (Cons a p)
  show ?case
  proof (cases "f a = k")
    case True
    with Cons.prems have "filter (\<lambda>i. f i = k) p = []"
      unfolding filter_empty_conv by (metis distinct.simps(2) imageI list.simps(9) set_map)
    with True show ?thesis by simp
  next
    case False
    with Cons show ?thesis by simp
  qed
qed


subsection \<open>The diversity selector\<close>




lemma bucket_head_best:
  assumes plain: "\<forall>i \<in> set xs. plain_insight i" and b: "b \<in> set (initial_buckets xs)"
  shows "bucket_insights b \<noteq> []"
    and "hd (bucket_insights b) \<in> set xs"
    and "bucket_key (hd (bucket_insights b)) = bucket_familyKey b"
    and "\<And>x. x \<in> set xs \<Longrightarrow> bucket_key x = bucket_familyKey b \<Longrightarrow>
           SortCompare compareInsights (hd (bucket_insights b)) x \<le> 0"
proof -
  note g = grouped_initial [of xs]
  show ne: "bucket_insights b \<noteq> []" using g b by (rule grouped_nonempty)
  then obtain h t where ht: "bucket_insights b = h # t" by (cases "bucket_insights b") auto
  note mem = grouped_members [OF g b]
  from ht mem show hx: "hd (bucket_insights b) \<in> set xs" by auto
  from ht mem show "bucket_key (hd (bucket_insights b)) = bucket_familyKey b" by auto
  fix x assume "x \<in> set xs" "bucket_key x = bucket_familyKey b"
  with mem ht have "x = h \<or> x \<in> set t" by auto
  moreover from sorted_initial_bucket [OF plain b] ht
  have "\<forall>y \<in> set t. SortCompare compareInsights h y \<le> 0" by simp
  moreover from hx ht plain have "plain_insight h" by simp
  ultimately show "SortCompare compareInsights (hd (bucket_insights b)) x \<le> 0"
    using ht compareInsights_refl [of h] by auto
qed

lemma first_pass_only:
  assumes keys: "\<forall>i \<in> set xs. bucket_key i \<notin> set object_prototype_names"
    and n: "n \<le> card (bucket_key ` set xs)"
  shows "getDiverseInsights xs n
    = Inr (map (\<lambda>b. hd (bucket_insights b)) (take n (initial_buckets xs)))"
proof -
  let ?B = "initial_buckets xs"
  note g = grouped_initial [of xs]
  have ne: "\<forall>b \<in> set ?B. bucket_insights b \<noteq> []" using grouped_nonempty [OF g] by blast
  have h: "heads ?B = map (\<lambda>b. hd (bucket_insights b)) ?B" using ne by (rule heads_nonempty)
  from n have "n \<le> length (heads ?B)" by (simp add: h grouped_length [OF g])
  then have "take n (concat (passes ?B)) = take n (heads ?B)" by (rule take_passes)
  then show ?thesis by (simp add: getDiverseInsights_passes [OF keys] h take_map)
qed

text \<open>
  On plain insights the selector serves one insight per family. When the limit \<open>n\<close> is at
  most the number of distinct families present, it returns \<open>n\<close> insights of \<open>n\<close> different
  families, each the Comparator-best of its family, and no insight of a family left out
  compares before one of them: one insight from each of the \<open>n\<close> highest-scoring
  families, and no second insight of any family. When there are fewer than \<open>n\<close> insights,
  all of them are returned and nothing else.
\<close>

lemma diverse_one_per_family:
  assumes plain: "\<forall>i \<in> set xs. plain_insight i"
  shows "\<exists>out. getDiverseInsights xs n = Inr out
   \<and> (n \<le> card (bucket_key ` set xs) \<longrightarrow>
      length out = n
      \<and> distinct (map bucket_key out)
      \<and> set out \<subseteq> set xs
      \<and> (\<forall>v \<in> set out. \<forall>x \<in> set xs.
            bucket_key x = bucket_key v \<longrightarrow> SortCompare compareInsights v x \<le> 0)
      \<and> (\<forall>x \<in> set xs. bucket_key x \<notin> bucket_key ` set out \<longrightarrow>
            (\<forall>v \<in> set out. SortCompare compareInsights v x \<le> 0)))
   \<and> (length xs < n \<longrightarrow> mset out = mset xs)"
proof -
  let ?B = "initial_buckets xs"
  let ?hd = "\<lambda>b. hd (bucket_insights b)"
  let ?out = "take n (concat (passes ?B))"
  note g = grouped_initial [of xs]
  from plain have keys: "\<forall>i \<in> set xs. bucket_key i \<notin> set object_prototype_names"
    by (simp add: plain_insight_def)
  have res: "getDiverseInsights xs n = Inr ?out" using keys by (rule getDiverseInsights_passes)
  have all: "mset ?out = mset xs" if "length xs < n"
  proof -
    have "mset (concat (passes ?B)) = mset xs"
      using g by (simp add: mset_passes grouped_def)
    moreover from this have "length (concat (passes ?B)) = length xs"
      by (rule mset_eq_length)
    ultimately show ?thesis using that by simp
  qed
  have one: "length ?out = n
      \<and> distinct (map bucket_key ?out)
      \<and> set ?out \<subseteq> set xs
      \<and> (\<forall>v \<in> set ?out. \<forall>x \<in> set xs.
            bucket_key x = bucket_key v \<longrightarrow> SortCompare compareInsights v x \<le> 0)
      \<and> (\<forall>x \<in> set xs. bucket_key x \<notin> bucket_key ` set ?out \<longrightarrow>
            (\<forall>v \<in> set ?out. SortCompare compareInsights v x \<le> 0))"
    if n: "n \<le> card (bucket_key ` set xs)"
  proof (intro conjI)
    from first_pass_only [OF keys n] res have out: "?out = map ?hd (take n ?B)" by simp
    have len: "n \<le> length ?B" using n by (simp add: grouped_length [OF g])
    have sub: "set (take n ?B) \<subseteq> set ?B" by (rule set_take_subset)
    show "length ?out = n" using len by (simp add: out)
    have "map bucket_key (map ?hd (take n ?B)) = map bucket_familyKey (take n ?B)"
      using sub bucket_head_best(3) [OF plain] by (simp add: subset_iff)
    moreover have "distinct (map bucket_familyKey (take n ?B))"
      using g unfolding grouped_def by (simp add: take_map [symmetric])
    ultimately show "distinct (map bucket_key ?out)" by (simp only: out)
    show "set ?out \<subseteq> set xs"
      using sub bucket_head_best(2) [OF plain] by (auto simp: out)
    show "\<forall>v \<in> set ?out. \<forall>x \<in> set xs.
            bucket_key x = bucket_key v \<longrightarrow> SortCompare compareInsights v x \<le> 0"
    proof (intro ballI impI)
      fix v x assume v: "v \<in> set ?out" and x: "x \<in> set xs"
        and k: "bucket_key x = bucket_key v"
      from v obtain b where b: "b \<in> set (take n ?B)" "v = ?hd b" by (auto simp: out)
      with sub have bB: "b \<in> set ?B" by blast
      from k b(2) bucket_head_best(3) [OF plain bB] have "bucket_key x = bucket_familyKey b"
        by simp
      from bucket_head_best(4) [OF plain bB x this] b(2)
      show "SortCompare compareInsights v x \<le> 0" by simp
    qed
    show "\<forall>x \<in> set xs. bucket_key x \<notin> bucket_key ` set ?out \<longrightarrow>
            (\<forall>v \<in> set ?out. SortCompare compareInsights v x \<le> 0)"
    proof (intro ballI impI)
      fix x v assume x: "x \<in> set xs"
        and out_x: "bucket_key x \<notin> bucket_key ` set ?out"
        and v: "v \<in> set ?out"
      from v obtain b where b: "b \<in> set (take n ?B)" "v = ?hd b" by (auto simp: out)
      with sub have bB: "b \<in> set ?B" by blast
      from g x obtain b' where b': "b' \<in> set ?B" "bucket_familyKey b' = bucket_key x"
        unfolding grouped_def by (metis (no_types, lifting) imageE imageI)
      have "b' \<notin> set (take n ?B)"
      proof
        assume "b' \<in> set (take n ?B)"
        then have "?hd b' \<in> set ?out" by (simp add: out)
        then have "bucket_key (?hd b') \<in> bucket_key ` set ?out" by (rule imageI)
        with bucket_head_best(3) [OF plain b'(1)] b'(2) out_x show False by simp
      qed
      moreover from b'(1) have "b' \<in> set (take n ?B @ drop n ?B)" by simp
      ultimately have "b' \<in> set (drop n ?B)" by (simp only: set_append Un_iff) simp
      moreover have "sorted_wrt (\<lambda>a b. SortCompare compareBuckets a b \<le> 0) (take n ?B @ drop n ?B)"
        using sorted_initial [OF plain] by simp
      ultimately have "SortCompare compareBuckets b b' \<le> 0"
        using b(1) unfolding sorted_wrt_append by blast
      with bucket_head_best(1) [OF plain b'(1)]
      have le1: "SortCompare compareInsights (?hd b) (?hd b') \<le> 0" by (simp add: compareBuckets_le)
      have le2: "SortCompare compareInsights (?hd b') x \<le> 0"
        using bucket_head_best(4) [OF plain b'(1) x] b'(2) by simp
      have "plain_insight (?hd b)" "plain_insight (?hd b')" "plain_insight x"
        using plain bucket_head_best(2) [OF plain bB] bucket_head_best(2) [OF plain b'(1)] x
        by blast+
      from compareInsights_trans [OF this le1 le2] b(2)
      show "SortCompare compareInsights v x \<le> 0" by simp
    qed
  qed
  from res one all show ?thesis by blast
qed

text \<open>Three families of three insights: one insight per family with limit 3, all nine with limit 20.\<close>

lemma diverse_three_by_three:
  "map plain_insight three_by_three = replicate 9 True"
  "map_sum id (map insight_id) (getDiverseInsights three_by_three 3) = Inr [1, 4, 7]"
  "map_sum id (map insight_id) (getDiverseInsights three_by_three 20)
     = Inr [1, 4, 7, 2, 5, 8, 3, 6, 9]"
  by code_simp+

text \<open>
  Claim C7 fails on the code. The two insights of \<open>inherited_priority_example\<close> have
  different families with the same quick score 4; the first has the priority
  \<^verbatim>\<open>constructor\<close>, an unknown priority of rank 3, the second the priority \<^verbatim>\<open>high\<close> of rank 0,
  so with limit 1 the claim returns the second. In the code the priority score of the first
  is the inherited member, the Comparator returns \<^verbatim>\<open>NaN\<close>, the sort keeps the order of the
  buckets and the first insight is returned. For the one insight of
  \<open>inherited_family_example\<close>, fewer than the limit 6, the claim returns that insight; the
  code throws a \<^verbatim>\<open>TypeError\<close> on its family key \<^verbatim>\<open>constructor\<close>.
\<close>

theorem diverse_inherited_names:
  "map (\<lambda>i. (insight_id i, bucket_key i, priority i)) inherited_priority_example
     = [(1, ''merchant_loyalty'', Some ''constructor''), (2, ''duplicate_services'', Some ''high'')]
   \<and> map (\<lambda>i. quickScore (scoreInsight i)) inherited_priority_example = [Num 4, Num 4]
   \<and> map (\<lambda>i. priorityScore (scoreInsight i)) inherited_priority_example
     = [Member ''constructor'', Num 0]
   \<and> spec_rank (priority (inherited_priority_example ! 1))
     < spec_rank (priority (inherited_priority_example ! 0))
   \<and> compareInsights (inherited_priority_example ! 0) (inherited_priority_example ! 1) = None
   \<and> compareInsights (inherited_priority_example ! 1) (inherited_priority_example ! 0) = None
   \<and> map_sum id (map insight_id) (getDiverseInsights inherited_priority_example 1) = Inr [1]
   \<and> map (\<lambda>i. (insight_id i, bucket_key i)) inherited_family_example = [(1, ''constructor'')]
   \<and> getDiverseInsights inherited_family_example 6 = Inl TypeError"
proof -
  have a: "map (\<lambda>i. (insight_id i, bucket_key i, priority i)) inherited_priority_example
     = [(1, ''merchant_loyalty'', Some ''constructor''), (2, ''duplicate_services'', Some ''high'')]"
    by code_simp
  have b: "map (\<lambda>i. quickScore (scoreInsight i)) inherited_priority_example = [Num 4, Num 4]"
    by code_simp
  have c: "map (\<lambda>i. priorityScore (scoreInsight i)) inherited_priority_example
     = [Member ''constructor'', Num 0]"
    by code_simp
  have c1: "spec_rank (priority (inherited_priority_example ! 1))
     < spec_rank (priority (inherited_priority_example ! 0))"
    by code_simp
  have d: "compareInsights (inherited_priority_example ! 0) (inherited_priority_example ! 1) = None"
    by code_simp
  have e: "compareInsights (inherited_priority_example ! 1) (inherited_priority_example ! 0) = None"
    by code_simp
  have f: "map_sum id (map insight_id) (getDiverseInsights inherited_priority_example 1) = Inr [1]"
    by code_simp
  have g: "map (\<lambda>i. (insight_id i, bucket_key i)) inherited_family_example = [(1, ''constructor'')]"
    by code_simp
  have h: "getDiverseInsights inherited_family_example 6 = Inl TypeError"
    by code_simp
  from a b c c1 d e f g h show ?thesis by (intro conjI)
qed

lemma uncategorized_key: "uncategorized i \<Longrightarrow> bucket_key i = ''uncategorized''"
  by (auto simp: uncategorized_def bucket_key_def or_else_def truthy_def split: option.splits)

text \<open>
  Where no family key names a member of \<^verbatim>\<open>Object.prototype\<close>, the insights without
  family share one bucket. Every insight whose \<^verbatim>\<open>family\<close> and \<^verbatim>\<open>familyKey\<close> are both missing has the bucket key
  \<^verbatim>\<open>uncategorized\<close> and sits in the bucket of that key; bucket keys are distinct, so there is
  one such bucket. No insight is dropped: the passes together hold exactly the insights
  given. The result is the first \<open>n\<close> insights of the passes, and no pass holds more than
  one insight without family.
\<close>

lemma uncategorized_shared_bucket:
  assumes keys: "\<forall>i \<in> set xs. bucket_key i \<notin> set object_prototype_names"
  shows "(\<forall>i \<in> set xs. uncategorized i \<longrightarrow>
      bucket_key i = ''uncategorized''
      \<and> (\<exists>b \<in> set (initial_buckets xs).
            bucket_familyKey b = ''uncategorized'' \<and> i \<in> set (bucket_insights b)))
   \<and> distinct (map bucket_familyKey (initial_buckets xs))
   \<and> mset (concat (passes (initial_buckets xs))) = mset xs
   \<and> getDiverseInsights xs n = Inr (take n (concat (passes (initial_buckets xs))))
   \<and> (\<forall>p \<in> set (passes (initial_buckets xs)). length (filter uncategorized p) \<le> 1)"
proof -
  let ?B = "initial_buckets xs"
  note g = grouped_initial [of xs]
  have one: "\<forall>i \<in> set xs. uncategorized i \<longrightarrow>
      bucket_key i = ''uncategorized''
      \<and> (\<exists>b \<in> set ?B. bucket_familyKey b = ''uncategorized'' \<and> i \<in> set (bucket_insights b))"
  proof (intro ballI impI)
    fix i assume i: "i \<in> set xs" and u: "uncategorized i"
    then have k: "bucket_key i = ''uncategorized''" by (simp add: uncategorized_key)
    from g i obtain b where b: "b \<in> set ?B" "bucket_familyKey b = bucket_key i"
      unfolding grouped_def by (metis (no_types, lifting) imageE imageI)
    with grouped_members [OF g b(1)] i have "i \<in> set (bucket_insights b)" by simp
    with b k show "bucket_key i = ''uncategorized''
      \<and> (\<exists>b \<in> set ?B. bucket_familyKey b = ''uncategorized'' \<and> i \<in> set (bucket_insights b))"
      by auto
  qed
  have two: "distinct (map bucket_familyKey ?B)" using g unfolding grouped_def by blast
  have three: "mset (concat (passes ?B)) = mset xs"
    using g by (simp add: mset_passes grouped_def)
  have four: "\<forall>p \<in> set (passes ?B). length (filter uncategorized p) \<le> 1"
  proof
    fix p assume "p \<in> set (passes ?B)"
    with grouped_well_keyed [OF g] have "distinct (map bucket_key p)" by (rule passes_distinct)
    then have "length (filter (\<lambda>i. bucket_key i = ''uncategorized'') p) \<le> 1"
      by (rule distinct_filter_le1)
    moreover have "filter uncategorized p
        = filter uncategorized (filter (\<lambda>i. bucket_key i = ''uncategorized'') p)"
      by (auto simp: uncategorized_key intro: filter_cong)
    then have "length (filter uncategorized p)
        \<le> length (filter (\<lambda>i. bucket_key i = ''uncategorized'') p)"
      by (metis length_filter_le)
    ultimately show "length (filter uncategorized p) \<le> 1" by simp
  qed
  from one two three four getDiverseInsights_passes [OF keys, of n] show ?thesis by (intro conjI)
qed

text \<open>Three insights without family and one with a family: the passes and the result.\<close>

lemma uncategorized_passes:
  "map uncategorized uncategorized_example = [True, True, False, True]"
  "map (map insight_id) (passes (initial_buckets uncategorized_example)) = [[3, 1], [2], [4]]"
  "map_sum id (map insight_id) (getDiverseInsights uncategorized_example 3) = Inr [3, 1, 2]"
  by code_simp+


subsection \<open>The projection engine: the scenario\<close>

lemma string_of_nat_numeral:
  "string_of_nat (numeral k) =
     (if (numeral k :: nat) < 10 then [digit_char (numeral k)]
      else string_of_nat (numeral k div 10) @ [digit_char (numeral k mod 10)])"
  by (rule string_of_nat.simps)

lemma string_of_nat_digit: "n < 10 \<Longrightarrow> string_of_nat n = [digit_char n]"
  by (simp add: string_of_nat.simps)

lemma keys: "toMonthKey (12 * 2024 + 0) = ''2024-01''" "toMonthKey (12 * 2024 + 1) = ''2024-02''"
  "toMonthKey (12 * 2024 + 2) = ''2024-03''"
  by (simp_all add: toMonthKey_def string_of_nat_numeral string_of_nat_digit digit_char_def padStart2_def)

lemma dates: "monthKeyToDate ''2024-01'' = 24288" "monthKeyToDate ''2024-02'' = 24289"
  "monthKeyToDate ''2024-03'' = 24290"
  by (simp_all add: monthKeyToDate_def nat_of_string_def digit_val_def)

lemma scenario_keys: "toMonthKey 24288 = ''2024-01''" "toMonthKey 24289 = ''2024-02''"
  "toMonthKey 24290 = ''2024-03''"
  by (simp_all add: toMonthKey_def string_of_nat_numeral string_of_nat_digit digit_char_def padStart2_def)

lemma scenario_dates: "monthKeyToDate ''2024-01'' = 24288" "monthKeyToDate ''2024-02'' = 24289"
  "monthKeyToDate ''2024-03'' = 24290"
  by (simp_all add: monthKeyToDate_def nat_of_string_def digit_val_def)

lemma scenario_categories:
  "formatCategoryLabel ''INCOME'' = ''Income''"
  "formatCategoryLabel ''RENT_AND_UTILITIES'' = ''Rent And Utilities''"
  "formatCategoryLabel ''FOOD_AND_DRINK'' = ''Food And Drink''"
  by (simp_all add: formatCategoryLabel_def toLowerCase_def lower_char_def capitalize_def
      upper_char_def)

lemma scenario_monthlyData: "monthlyData_of scenario = scenario_months"
  by (simp add: monthlyData_of_def bucketTransactions_def scenario_def tx_def add_transaction_def
      scenario_keys scenario_dates record_transaction_def amount_of_def empty_bucket_def Let_def
      selectedKeys_def MAX_HISTORY_def month_entry_def category_of_def or_else_def
      scenario_categories scenario_months_def)

lemma scenario_stats:
  "average (filter (\<lambda>v. v > 0) (map md_income scenario_months)) = 2000"
  "average (map md_spending scenario_months) = 1600"
  "stddev (map md_spending scenario_months) = sqrt (20000 / 3)"
  "stddev (concat (map md_incomeEvents scenario_months)) = 0"
  by (simp_all add: scenario_months_def average_def stddev_def Let_def)

lemma sqrt_bounds: "81.64 < sqrt (20000 / 3 :: real)" "sqrt (20000 / 3 :: real) < 81.66"
proof -
  have "(81.64 :: real)\<^sup>2 < 20000 / 3" by (simp add: power2_eq_square)
  then show "81.64 < sqrt (20000 / 3 :: real)" by (rule real_less_rsqrt)
  have "(20000 / 3 :: real) < 81.66\<^sup>2" by (simp add: power2_eq_square)
  then show "sqrt (20000 / 3 :: real) < 81.66" by (intro real_less_lsqrt) simp_all
qed

lemma scenario_order:
  "array_sort (\<lambda>a b. int (md_date a) - int (md_date b)) scenario_months = scenario_months"
  "array_sort (\<lambda>a b. int (md_date b) - int (md_date a)) scenario_months = rev scenario_months"
  by (simp_all add: scenario_months_def array_sort_def)

lemma scenario_walk_back:
  "map snd (walk_back (rev scenario_months) 5000) = [4300, 4600, 5000]"
  "map fst (walk_back (rev scenario_months) 5000) = scenario_months"
  by (simp_all add: scenario_months_def walk_back_def)

lemma scenario_not_empty: "scenario \<noteq> []" "length scenario_months = 3"
  by (simp_all add: scenario_def scenario_months_def)

lemma scenario_last: "last scenario_months
  = \<lparr>md_key = ''2024-03'', md_date = 24290, md_income = 2000, md_spending = 1600, md_net = 400,
       md_categories = [(''Rent And Utilities'', 1600)],
       md_incomeEvents = [2000], md_spendingEvents = [1600]\<rparr>"
  by (simp add: scenario_months_def)

lemma walk_back_scenario:
  "walk_back (rev scenario_months) 5000 = zip scenario_months [4300, 4600, 5000]"
  by (simp add: scenario_months_def walk_back_def)

text \<open>
  Claim C4. On the scenario with current balance 5000 the projection has data, with
  average income 2000, average spending 1600, net change 400 and income confidence
  \<open>high\<close>. The reconstructed balances of January, February and March are 4300, 4600 and
  5000: the most recent month has the current balance, the month before has 5000 less
  the net of 400 of the most recent month. The first forecast month has the projected
  balance 5400, and its upper and lower bounds lie the population standard deviation of
  the monthly spending above and below, which is within 0.01 of 81.65.
\<close>

theorem scenario_projection:
  "\<bar>stddev [1500, 1700, 1600] - 81.65\<bar> < 0.01
   \<and> (\<exists>p. buildFinancialProjection scenario (Some 5000) = HasData p
     \<and> expectedIncome p = 2000 \<and> expectedSpending p = 1600 \<and> netChange p = 400
     \<and> incomeConfidence p = high
     \<and> map he_date (history p) = [24288, 24289, 24290]
     \<and> map actualBalance (history p) = [4300, 4600, 5000]
     \<and> map fe_date (forecast p) = [24291, 24292, 24293, 24294]
     \<and> projectedBalance (hd (forecast p)) = 5400
     \<and> upperBound (hd (forecast p)) = 5400 + stddev [1500, 1700, 1600]
     \<and> lowerBound (hd (forecast p)) = 5400 - stddev [1500, 1700, 1600])"
proof -
  have sd: "stddev [1500, 1700, 1600] = sqrt (20000 / 3)"
    by (simp add: average_def stddev_def Let_def)
  have close: "\<bar>sqrt (20000 / 3 :: real) - 81.65\<bar> < 0.01"
    using sqrt_bounds by linarith
  have last_line: "last (zip scenario_months [4300, 4600, 5000 :: real])
      = (last scenario_months, 5000)"
    by (simp add: scenario_months_def)
  have line_ne: "zip scenario_months [4300, 4600, 5000 :: real] \<noteq> []"
    by (simp add: scenario_months_def)
  have hist: "map fst (zip scenario_months [4300, 4600, 5000 :: real]) = scenario_months"
    "map snd (zip scenario_months [4300, 4600, 5000 :: real]) = [4300, 4600, 5000]"
    by (simp_all add: scenario_months_def)
  have dates: "map md_date scenario_months = [24288, 24289, 24290]"
    by (simp add: scenario_months_def)
  have hd1: "map he_date (map (\<lambda>(entry, bal). \<lparr>he_date = md_date entry, actualBalance = bal,
        he_income = md_income entry, he_spending = md_spending entry, he_net = md_net entry,
        anomaly = A entry\<rparr>) l) = map md_date (map fst l)" for A and l :: "(month_data \<times> real) list"
    by (induction l) auto
  have hd2: "map actualBalance (map (\<lambda>(entry, bal). \<lparr>he_date = md_date entry, actualBalance = bal,
        he_income = md_income entry, he_spending = md_spending entry, he_net = md_net entry,
        anomaly = A entry\<rparr>) l) = map snd l" for A and l :: "(month_data \<times> real) list"
    by (induction l) auto
  have upt: "[1 ..< FUTURE_MONTHS + 1] = [1, 2, 3, 4]"
    by (simp add: FUTURE_MONTHS_def upt_rec)
  have ne: "scenario_months \<noteq> []" by (simp add: scenario_months_def)
  have main: "\<exists>p. buildFinancialProjection scenario (Some 5000) = HasData p
     \<and> expectedIncome p = 2000 \<and> expectedSpending p = 1600 \<and> netChange p = 400
     \<and> incomeConfidence p = high
     \<and> map he_date (history p) = [24288, 24289, 24290]
     \<and> map actualBalance (history p) = [4300, 4600, 5000]
     \<and> map fe_date (forecast p) = [24291, 24292, 24293, 24294]
     \<and> projectedBalance (hd (forecast p)) = 5400
     \<and> upperBound (hd (forecast p)) = 5400 + stddev [1500, 1700, 1600]
     \<and> lowerBound (hd (forecast p)) = 5400 - stddev [1500, 1700, 1600]"
    unfolding buildFinancialProjection_def sd upt
    by (simp add: ne scenario_not_empty scenario_monthlyData scenario_stats scenario_order
        walk_back_scenario last_line line_ne scenario_last hist dates hd1 hd2
        forecast_step_def confidence_of_def Let_def del: map_map)
  from close have "\<bar>stddev [1500, 1700, 1600] - 81.65\<bar> < 0.01" by (simp only: sd)
  then show ?thesis using main by (rule conjI)
qed

subsection \<open>Month keys\<close>

lemma digit_cases:
  assumes "k < (10::nat)"
  shows "k = 0 \<or> k = 1 \<or> k = 2 \<or> k = 3 \<or> k = 4 \<or> k = 5 \<or> k = 6 \<or> k = 7 \<or> k = 8 \<or> k = 9"
  using assms by presburger

lemma digit_val_digit_char: "k < 10 \<Longrightarrow> digit_val (digit_char k) = k"
  by (drule digit_cases) (auto simp: digit_val_def digit_char_def)

lemma digit_char_not_dash: "digit_char k \<noteq> CHR ''-''"
proof -
  have "k mod 10 < 10" by simp
  then show ?thesis
    by (drule_tac digit_cases) (auto simp: digit_char_def)
qed

lemma nat_of_string_snoc: "nat_of_string (s @ [c]) = 10 * nat_of_string s + digit_val c"
  by (simp add: nat_of_string_def)

lemma nat_of_string_of_nat: "nat_of_string (string_of_nat n) = n"
proof (induction n rule: string_of_nat.induct)
  case (1 n)
  show ?case
  proof (cases "n < 10")
    case True
    then show ?thesis
      by (subst string_of_nat.simps) (simp add: nat_of_string_def digit_val_digit_char)
  next
    case False
    have "nat_of_string (string_of_nat n)
        = 10 * nat_of_string (string_of_nat (n div 10)) + digit_val (digit_char (n mod 10))"
      using False by (subst string_of_nat.simps) (simp add: nat_of_string_snoc)
    with "1.IH" [OF False] show ?thesis by (simp add: digit_val_digit_char)
  qed
qed

lemma string_of_nat_no_dash: "CHR ''-'' \<notin> set (string_of_nat n)"
proof (induction n rule: string_of_nat.induct)
  case (1 n)
  show ?case
  proof (cases "n < 10")
    case True
    then show ?thesis
      using digit_char_not_dash [of n] by (subst string_of_nat.simps) auto
  next
    case False
    with "1.IH" [OF False] digit_char_not_dash [of "n mod 10"] show ?thesis
      by (subst string_of_nat.simps) auto
  qed
qed

lemma nat_of_string_pad: "nat_of_string (replicate k (CHR ''0'') @ s) = nat_of_string s"
proof -
  have z: "digit_val (CHR ''0'') = 0" by (simp add: digit_val_def)
  show ?thesis by (induction k) (simp_all add: nat_of_string_def z)
qed

lemma split_on_no_sep: "c \<notin> set s \<Longrightarrow> split_on c s = [s]"
  by (induction s) auto

lemma split_on_first: "c \<notin> set s \<Longrightarrow> split_on c (s @ c # r) = s # split_on c r"
  by (induction s) auto

lemma parse_toMonthKey:
  "map nat_of_string (split_on (CHR ''-'') (toMonthKey d)) = [d div 12, d mod 12 + 1]"
proof -
  let ?Y = "string_of_nat (d div 12)"
  let ?P = "padStart2 (string_of_nat (d mod 12 + 1))"
  have "CHR ''-'' \<notin> set ?P"
    using string_of_nat_no_dash [of "d mod 12 + 1"] by (auto simp: padStart2_def)
  then have "split_on (CHR ''-'') (?Y @ CHR ''-'' # ?P) = [?Y, ?P]"
    using string_of_nat_no_dash [of "d div 12"] by (simp add: split_on_first split_on_no_sep)
  moreover have "nat_of_string ?P = d mod 12 + 1"
    unfolding padStart2_def nat_of_string_pad by (rule nat_of_string_of_nat)
  ultimately show ?thesis by (simp add: toMonthKey_def nat_of_string_of_nat)
qed

lemma monthKeyToDate_toMonthKey:
  "monthKeyToDate (toMonthKey d)
     = 12 * (if d div 12 \<le> 99 then 1900 + d div 12 else d div 12) + d mod 12"
  by (simp add: monthKeyToDate_def parse_toMonthKey)

lemma toMonthKey_inj: "toMonthKey d = toMonthKey d' \<Longrightarrow> d = d'"
proof -
  assume "toMonthKey d = toMonthKey d'"
  then have "map nat_of_string (split_on (CHR ''-'') (toMonthKey d))
      = map nat_of_string (split_on (CHR ''-'') (toMonthKey d'))" by simp
  then have "d div 12 = d' div 12" "d mod 12 = d' mod 12"
    unfolding parse_toMonthKey by simp_all
  then show ?thesis by (metis div_mult_mod_eq)
qed

subsection \<open>Month buckets and the data gap\<close>

lemma bucketTransactions_snoc:
  "bucketTransactions (txs @ [t]) = add_transaction t (bucketTransactions txs)"
  by (simp add: bucketTransactions_def)

lemma map_of_update_bucket:
  "map_of (map (\<lambda>(k, b). if k = key then (k, f b) else (k, b)) m) k'
     = (if k' = key then map_option f (map_of m key) else map_of m k')"
  by (induction m) auto

lemma keys_update_bucket:
  "map fst (map (\<lambda>(k, b). if k = key then (k, f b) else (k, b)) m) = map fst m"
  by (induction m) auto

lemma add_transaction_keys:
  "map fst (add_transaction t m)
     = (case tx_date t of
          None \<Rightarrow> map fst m
        | Some d \<Rightarrow> if toMonthKey d \<in> set (map fst m) then map fst m
                    else map fst m @ [toMonthKey d])"
proof (cases "tx_date t")
  case None
  then show ?thesis by (simp add: add_transaction_def)
next
  case (Some d)
  let ?key = "toMonthKey d"
  let ?m = "if map_of m ?key = None then m @ [(?key, empty_bucket)] else m"
  have none: "map_of m ?key = None \<longleftrightarrow> ?key \<notin> set (map fst m)"
    by (simp add: map_of_eq_None_iff)
  have "add_transaction t m
      = map (\<lambda>(k, b). if k = ?key then (k, record_transaction t b) else (k, b)) ?m"
    using Some by (simp add: add_transaction_def Let_def)
  then have "map fst (add_transaction t m) = map fst ?m"
    by (simp only: keys_update_bucket)
  also have "\<dots> = (if ?key \<in> set (map fst m) then map fst m else map fst m @ [?key])"
    using none by (cases "map_of m ?key = None") simp_all
  finally show ?thesis using Some by simp
qed

lemma bucket_keys:
  "distinct (map fst (bucketTransactions txs))
   \<and> set (map fst (bucketTransactions txs)) = toMonthKey ` set (months_of txs)"
proof (induction txs rule: rev_induct)
  case Nil
  then show ?case by (simp add: bucketTransactions_def months_of_def)
next
  case (snoc t txs)
  show ?case
  proof (cases "tx_date t")
    case None
    with snoc show ?thesis
      by (simp add: bucketTransactions_snoc add_transaction_keys months_of_def del: set_map)
  next
    case (Some d)
    then have m: "set (months_of (txs @ [t])) = insert d (set (months_of txs))"
      by (simp add: months_of_def)
    show ?thesis
    proof (cases "toMonthKey d \<in> set (map fst (bucketTransactions txs))")
      case True
      with Some have "map fst (bucketTransactions (txs @ [t])) = map fst (bucketTransactions txs)"
        by (simp add: bucketTransactions_snoc add_transaction_keys)
      with snoc True m show ?thesis by auto
    next
      case False
      with Some have "map fst (bucketTransactions (txs @ [t]))
          = map fst (bucketTransactions txs) @ [toMonthKey d]"
        by (simp add: bucketTransactions_snoc add_transaction_keys)
      with snoc False m show ?thesis by auto
    qed
  qed
qed

lemma bucket_count: "length (bucketTransactions txs) = card (set (months_of txs))"
proof -
  have "length (bucketTransactions txs) = length (map fst (bucketTransactions txs))" by simp
  also have "\<dots> = card (set (map fst (bucketTransactions txs)))"
    using bucket_keys [of txs] by (metis distinct_card)
  also have "\<dots> = card (toMonthKey ` set (months_of txs))"
    using bucket_keys [of txs] by (metis (no_types))
  also have "\<dots> = card (set (months_of txs))"
    by (rule card_image) (auto simp: inj_on_def dest: toMonthKey_inj)
  finally show ?thesis .
qed

lemma monthlyData_length:
  "length (monthlyData_of txs) = min MAX_HISTORY (card (set (months_of txs)))"
  by (simp add: monthlyData_of_def selectedKeys_def Let_def bucket_count)

text \<open>
  Claim C3. \<^verbatim>\<open>buildFinancialProjection\<close> returns the variant \<open>collecting\<close> when the list of
  transactions is empty or the balance is null or undefined; the variant \<open>insufficient\<close>
  when there are transactions and a balance and fewer than three different months among
  the transactions whose date parses (the others are skipped); and a projection
  otherwise. So two months of history give \<open>insufficient\<close> and three give a projection.
\<close>

theorem projection_data_gap:
  "(transactions = [] \<or> currentBalance = None \<longrightarrow>
      buildFinancialProjection transactions currentBalance = NoData collecting)
   \<and> (transactions \<noteq> [] \<and> currentBalance \<noteq> None \<and> card (set (months_of transactions)) < 3 \<longrightarrow>
      buildFinancialProjection transactions currentBalance = NoData insufficient)
   \<and> (transactions \<noteq> [] \<and> currentBalance \<noteq> None \<and> 3 \<le> card (set (months_of transactions)) \<longrightarrow>
      (\<exists>p. buildFinancialProjection transactions currentBalance = HasData p))"
proof (intro conjI impI)
  assume "transactions = [] \<or> currentBalance = None"
  then show "buildFinancialProjection transactions currentBalance = NoData collecting"
    by (auto simp: buildFinancialProjection_def split: option.splits)
next
  assume "transactions \<noteq> [] \<and> currentBalance \<noteq> None \<and> card (set (months_of transactions)) < 3"
  moreover from this have "length (monthlyData_of transactions) < 3"
    by (simp add: monthlyData_length MAX_HISTORY_def)
  ultimately show "buildFinancialProjection transactions currentBalance = NoData insufficient"
    by (auto simp: buildFinancialProjection_def)
next
  assume a: "transactions \<noteq> [] \<and> currentBalance \<noteq> None \<and> 3 \<le> card (set (months_of transactions))"
  then have "\<not> length (monthlyData_of transactions) < 3"
    unfolding monthlyData_length MAX_HISTORY_def by linarith
  with a show "\<exists>p. buildFinancialProjection transactions currentBalance = HasData p"
    by (auto simp: buildFinancialProjection_def Let_def)
qed

text \<open>
  Claim C3 at an empty ledger, at a missing balance, at two months of history (with a
  transaction whose date does not parse) and at the three months of the scenario.
\<close>

theorem projection_data_gap_witness:
  "buildFinancialProjection [] (Some 5000) = NoData collecting
   \<and> buildFinancialProjection scenario None = NoData collecting
   \<and> card (set (months_of two_months)) = 2
   \<and> buildFinancialProjection two_months (Some 5000) = NoData insufficient
   \<and> card (set (months_of scenario)) = 3
   \<and> (\<exists>p. buildFinancialProjection scenario (Some 5000) = HasData p)"
proof -
  have c2: "card (set (months_of two_months)) = 2"
    by (simp add: months_of_def two_months_def tx_def)
  have c3: "card (set (months_of scenario)) = 3"
    by (simp add: months_of_def scenario_def tx_def)
  have ne: "two_months \<noteq> []" "scenario \<noteq> []" by (simp_all add: two_months_def scenario_def)
  note a = projection_data_gap [of "[]" "Some 5000", THEN conjunct1]
  note b = projection_data_gap [of scenario None, THEN conjunct1]
  note c = projection_data_gap [of two_months "Some 5000", THEN conjunct2, THEN conjunct1]
  note d = projection_data_gap [of scenario "Some 5000", THEN conjunct2, THEN conjunct2]
  from a have 1: "buildFinancialProjection [] (Some 5000) = NoData collecting" by simp
  from b have 2: "buildFinancialProjection scenario None = NoData collecting" by simp
  from c c2 ne have 3: "buildFinancialProjection two_months (Some 5000) = NoData insufficient"
    by simp
  from d c3 ne have 4: "\<exists>p. buildFinancialProjection scenario (Some 5000) = HasData p"
    by simp
  from 1 2 c2 3 c3 4 show ?thesis by (intro conjI)
qed

lemma amount_of_zero: "tx_amount t = None \<or> tx_amount t = Some 0 \<Longrightarrow> amount_of t = 0"
  by (auto simp: amount_of_def)

lemma add_transaction_bucket:
  assumes "tx_date t = Some d"
  shows "map_of (add_transaction t m) k
    = (if k = toMonthKey d then Some (record_transaction t (bucket_at m (toMonthKey d)))
       else map_of m k)"
proof -
  let ?key = "toMonthKey d"
  let ?m = "if map_of m ?key = None then m @ [(?key, empty_bucket)] else m"
  have step: "add_transaction t m
      = map (\<lambda>(k, b). if k = ?key then (k, record_transaction t b) else (k, b)) ?m"
    using assms by (simp add: add_transaction_def Let_def)
  have at: "map_of ?m ?key = Some (bucket_at m ?key)"
    by (cases "map_of m ?key") (simp_all add: bucket_at_def map_add_def)
  have other: "map_of ?m k = map_of m k" if "k \<noteq> ?key"
    using that by (cases "map_of m ?key") (auto simp: map_add_def split: option.splits)
  show ?thesis unfolding step map_of_update_bucket using at other by simp
qed

text \<open>
  Claim C9. When \<^verbatim>\<open>buildFinancialProjection\<close> comes to a transaction whose date parses and
  whose amount is 0 or not a number (and so coerced to 0), the bucket of its month keeps
  its income total and income events, has 0 added to its spending total, 0 appended to
  its spending events, and 0 added to the total of the transaction's category (which is
  created at 0 if the month did not have it); other category totals stay as they were.
\<close>

theorem zero_amount_is_spending:
  assumes "tx_date t = Some d" and "tx_amount t = None \<or> tx_amount t = Some 0"
  shows "\<exists>after. map_of (bucketTransactions (txs @ [t])) (toMonthKey d) = Some after
      \<and> income after = income (bucket_at (bucketTransactions txs) (toMonthKey d))
      \<and> incomeEvents after = incomeEvents (bucket_at (bucketTransactions txs) (toMonthKey d))
      \<and> spending after = spending (bucket_at (bucketTransactions txs) (toMonthKey d)) + 0
      \<and> spendingEvents after
          = spendingEvents (bucket_at (bucketTransactions txs) (toMonthKey d)) @ [0]
      \<and> map_of (categories after) (category_of t)
          = Some ((case map_of (categories (bucket_at (bucketTransactions txs) (toMonthKey d)))
                          (category_of t) of None \<Rightarrow> 0 | Some v \<Rightarrow> v) + 0)
      \<and> (\<forall>c. c \<noteq> category_of t \<longrightarrow> map_of (categories after) c
            = map_of (categories (bucket_at (bucketTransactions txs) (toMonthKey d))) c)"
proof -
  let ?before = "bucket_at (bucketTransactions txs) (toMonthKey d)"
  have z: "amount_of t = 0" using assms(2) by (rule amount_of_zero)
  have "map_of (bucketTransactions (txs @ [t])) (toMonthKey d)
      = Some (record_transaction t ?before)"
    by (simp add: bucketTransactions_snoc add_transaction_bucket [OF assms(1)])
  moreover have "income (record_transaction t ?before) = income ?before"
    "incomeEvents (record_transaction t ?before) = incomeEvents ?before"
    "spending (record_transaction t ?before) = spending ?before + 0"
    "spendingEvents (record_transaction t ?before) = spendingEvents ?before @ [0]"
    by (simp_all add: record_transaction_def z Let_def)
  moreover have "map_of (categories (record_transaction t ?before)) (category_of t)
      = Some ((case map_of (categories ?before) (category_of t) of None \<Rightarrow> 0 | Some v \<Rightarrow> v) + 0)"
    by (simp add: record_transaction_def z Let_def update_conv')
  moreover have "\<forall>c. c \<noteq> category_of t \<longrightarrow>
      map_of (categories (record_transaction t ?before)) c = map_of (categories ?before) c"
    by (simp add: record_transaction_def z Let_def update_conv')
  ultimately show ?thesis by blast
qed

text \<open>Claim C9 at a transaction of March 2024 with an amount that is not a number.\<close>

theorem zero_amount_is_spending_witness:
  "tx_date zero_tx = Some 24290 \<and> tx_amount zero_tx = None
   \<and> category_of zero_tx = ''Food And Drink''
   \<and> (\<exists>after. map_of (bucketTransactions (scenario @ [zero_tx])) ''2024-03'' = Some after
        \<and> income after = 2000 \<and> incomeEvents after = [2000]
        \<and> spending after = 1600 \<and> spendingEvents after = [1600, 0]
        \<and> map_of (categories after) ''Food And Drink'' = Some 0)"
proof -
  have d: "tx_date zero_tx = Some 24290" and a: "tx_amount zero_tx = None"
    by (simp_all add: zero_tx_def)
  have c: "category_of zero_tx = ''Food And Drink''"
    by (simp add: zero_tx_def category_of_def or_else_def scenario_categories)
  have before: "bucket_at (bucketTransactions scenario) ''2024-03''
      = \<lparr>income = 2000, spending = 1600, categories = [(''Rent And Utilities'', 1600)],
         incomeEvents = [2000], spendingEvents = [1600],
         sampleTransactions = [tx 24290 1600 ''RENT_AND_UTILITIES'', tx 24290 (- 2000) ''INCOME'']\<rparr>"
    by (simp add: bucket_at_def bucketTransactions_def scenario_def tx_def add_transaction_def
        scenario_keys record_transaction_def amount_of_def empty_bucket_def Let_def
        category_of_def or_else_def scenario_categories)
  from a have "tx_amount zero_tx = None \<or> tx_amount zero_tx = Some 0" by simp
  from zero_amount_is_spending [OF d this, of scenario]
  have "\<exists>after. map_of (bucketTransactions (scenario @ [zero_tx])) ''2024-03'' = Some after
        \<and> income after = 2000 \<and> incomeEvents after = [2000]
        \<and> spending after = 1600 \<and> spendingEvents after = [1600, 0]
        \<and> map_of (categories after) ''Food And Drink'' = Some 0
        \<and> (\<forall>c. c \<noteq> ''Food And Drink'' \<longrightarrow> map_of (categories after) c
              = map_of [(''Rent And Utilities'', 1600)] c)"
    unfolding scenario_keys before c by simp
  then have "\<exists>after. map_of (bucketTransactions (scenario @ [zero_tx])) ''2024-03'' = Some after
        \<and> income after = 2000 \<and> incomeEvents after = [2000]
        \<and> spending after = 1600 \<and> spendingEvents after = [1600, 0]
        \<and> map_of (categories after) ''Food And Drink'' = Some 0"
    by (elim exE conjE, intro exI conjI) assumption+
  with d a c show ?thesis by (intro conjI)
qed


end
